theory Spec2Isabelle
  imports Main
begin

section \<open>JavaScript strings and arrays\<close>

text \<open>
  A JavaScript string is modelled as a \<^typ>\<open>string\<close>, one \<^typ>\<open>char\<close> per code unit.
  The functions below are the built-in methods that \<^verbatim>\<open>src/path.ts\<close> calls, for the
  arguments it passes to them.
\<close>

text \<open>\<^verbatim>\<open>s.charAt(i)\<close>: the one-character string at index \<open>i\<close>, or the empty string.\<close>

definition charAt :: "string \<Rightarrow> nat \<Rightarrow> string" where
  "charAt s i = (if i < length s then [s ! i] else [])"

text \<open>
  \<^verbatim>\<open>s.substr(start, length)\<close>: a negative \<open>start\<close> counts from the end, and a missing
  \<open>length\<close> means "to the end of the string".
\<close>

definition substr :: "string \<Rightarrow> int \<Rightarrow> int option \<Rightarrow> string" where
  "substr s start len =
     (let size = int (length s);
          st = (if start < 0 then max (size + start) 0 else min start size);
          n = (case len of None \<Rightarrow> size - st | Some l \<Rightarrow> min (max l 0) (size - st))
      in take (nat n) (drop (nat st) s))"

text \<open>\<^verbatim>\<open>s.slice(start, end)\<close>: negative indices count from the end.\<close>

definition slice :: "string \<Rightarrow> int \<Rightarrow> int \<Rightarrow> string" where
  "slice s start end =
     (let size = int (length s);
          from = (if start < 0 then max (size + start) 0 else min start size);
          to = (if end < 0 then max (size + end) 0 else min end size)
      in take (nat (max (to - from) 0)) (drop (nat from) s))"

text \<open>\<^verbatim>\<open>s.substring(start)\<close> for a non-negative \<open>start\<close>.\<close>

definition substring :: "string \<Rightarrow> nat \<Rightarrow> string" where
  "substring s start = drop (min start (length s)) s"

text \<open>
  \<^verbatim>\<open>s.split(sep)\<close> for a one-character separator: the empty string gives one empty
  piece, and \<open>n\<close> separators give \<open>n + 1\<close> pieces.
\<close>

fun js_split :: "char \<Rightarrow> string \<Rightarrow> string list" where
  "js_split sep [] = [[]]"
| "js_split sep (c # cs) =
     (if c = sep then [] # js_split sep cs
      else (case js_split sep cs of
              [] \<Rightarrow> [[c]]
            | x # xs \<Rightarrow> (c # x) # xs))"

text \<open>\<^verbatim>\<open>arr.join(sep)\<close> on an array of strings.\<close>

fun js_join :: "string \<Rightarrow> string list \<Rightarrow> string" where
  "js_join sep [] = []"
| "js_join sep [x] = x"
| "js_join sep (x # y # ys) = x @ sep @ js_join sep (y # ys)"

text \<open>The constants \<^verbatim>\<open>sep\<close> and \<^verbatim>\<open>delimiter\<close>.\<close>

definition sep :: string where
  "sep = ''/''"

definition delimiter :: string where
  "delimiter = '':''"

section \<open>The segment normalizer\<close>

text \<open>
  \<^verbatim>\<open>normalizeArray\<close> runs a \<^verbatim>\<open>for ... of\<close> loop over \<open>parts\<close> with the array
  \<open>res\<close> as its state: \<^verbatim>\<open>res.push(p)\<close> appends at the end, \<^verbatim>\<open>res.pop()\<close> removes
  the last element. \<open>normalizeArray_loop\<close> is the loop, started at any \<open>res\<close>.
\<close>

fun normalizeArray_loop :: "bool \<Rightarrow> string list \<Rightarrow> string list \<Rightarrow> string list" where
  "normalizeArray_loop allowAboveRoot res [] = res"
| "normalizeArray_loop allowAboveRoot res (p # parts) =
     (if p = [] \<or> p = ''.'' then normalizeArray_loop allowAboveRoot res parts
      else if p = ''..'' then
        (if length res \<noteq> 0 \<and> res ! (length res - 1) \<noteq> ''..''
         then normalizeArray_loop allowAboveRoot (butlast res) parts
         else if allowAboveRoot
         then normalizeArray_loop allowAboveRoot (res @ [''..'']) parts
         else normalizeArray_loop allowAboveRoot res parts)
      else normalizeArray_loop allowAboveRoot (res @ [p]) parts)"

definition normalizeArray :: "string list \<Rightarrow> bool \<Rightarrow> string list" where
  "normalizeArray parts allowAboveRoot = normalizeArray_loop allowAboveRoot [] parts"

section \<open>normalize\<close>

definition isAbsolute :: "string \<Rightarrow> bool" where
  "isAbsolute path = (charAt path 0 = ''/'')"

definition normalize :: "string \<Rightarrow> string" where
  "normalize path =
     (let absolute = isAbsolute path;
          trailingSlash = (substr path (-1) None = ''/'');
          path1 = js_join ''/'' (normalizeArray (js_split CHR ''/'' path) (\<not> absolute));
          path2 = (if path1 = [] \<and> \<not> absolute then ''.'' else path1);
          path3 = (if path2 \<noteq> [] \<and> trailingSlash then path2 @ ''/'' else path2)
      in (if absolute then ''/'' else []) @ path3)"

section \<open>JavaScript values\<close>

text \<open>
  \<^verbatim>\<open>join\<close>, \<^verbatim>\<open>resolve\<close>, \<^verbatim>\<open>parse\<close> and \<^verbatim>\<open>format\<close> test the run-time type of what
  they are given, so their arguments are values of any type: \<open>undefined\<close>, \<open>null\<close>,
  booleans, numbers (the integer-valued ones), strings, and plain objects (property names
  with their values, in order of definition).
\<close>

datatype jsval =
    JUndefined
  | JNull
  | JBool bool
  | JNum int
  | JStr string
  | JObj "(string \<times> jsval) list"

fun typeof :: "jsval \<Rightarrow> string" where
  "typeof JUndefined = ''undefined''"
| "typeof JNull = ''object''"
| "typeof (JBool b) = ''boolean''"
| "typeof (JNum n) = ''number''"
| "typeof (JStr s) = ''string''"
| "typeof (JObj fs) = ''object''"

definition isObject :: "jsval \<Rightarrow> bool" where
  "isObject v = (v \<noteq> JNull \<and> typeof v = ''object'')"

definition isString :: "jsval \<Rightarrow> bool" where
  "isString x = (typeof x = ''string'')"

text \<open>Truthiness, as \<^verbatim>\<open>if (x)\<close>, \<^verbatim>\<open>!x\<close> and \<^verbatim>\<open>x ? a : b\<close> test it.\<close>

fun truthy :: "jsval \<Rightarrow> bool" where
  "truthy JUndefined = False"
| "truthy JNull = False"
| "truthy (JBool b) = b"
| "truthy (JNum n) = (n \<noteq> 0)"
| "truthy (JStr s) = (s \<noteq> [])"
| "truthy (JObj fs) = True"

text \<open>\<^verbatim>\<open>a ?? b\<close>: \<open>b\<close> when \<open>a\<close> is \<open>null\<close> or \<open>undefined\<close>, else \<open>a\<close>.\<close>

fun nullish :: "jsval \<Rightarrow> jsval \<Rightarrow> jsval" where
  "nullish JUndefined b = b"
| "nullish JNull b = b"
| "nullish a b = a"

text \<open>\<^verbatim>\<open>o.k\<close> on an object: the value of the property, \<open>undefined\<close> when it has none.\<close>

fun get_prop :: "jsval \<Rightarrow> string \<Rightarrow> jsval" where
  "get_prop (JObj fs) k = (case map_of fs k of None \<Rightarrow> JUndefined | Some v \<Rightarrow> v)"
| "get_prop v k = JUndefined"

text \<open>
  The string that \<^verbatim>\<open>+\<close> with a string operand makes of the other operand.
\<close>

fun digits :: "nat \<Rightarrow> string" where
  "digits n =
     (if n < 10 then [char_of (48 + n)]
      else digits (n div 10) @ [char_of (48 + n mod 10)])"

fun to_string :: "jsval \<Rightarrow> string" where
  "to_string JUndefined = ''undefined''"
| "to_string JNull = ''null''"
| "to_string (JBool b) = (if b then ''true'' else ''false'')"
| "to_string (JNum n) = (if n < 0 then ''-'' @ digits (nat (- n)) else digits (nat n))"
| "to_string (JStr s) = s"
| "to_string (JObj fs) = ''[object Object]''"

datatype error = TypeError string

section \<open>The path splitter\<close>

subsection \<open>A backtracking matcher for the constructs of \<^verbatim>\<open>splitPathRe\<close>\<close>

text \<open>
  \<^verbatim>\<open>splitPathRe\<close> is built from character classes, the assertions \<^verbatim>\<open>^\<close> and \<^verbatim>\<open>$\<close>
  (no \<^verbatim>\<open>m\<close> flag), sequence, alternative, capturing groups, and greedy and lazy
  quantifiers, each of them applied to a character class.
\<close>

datatype cset =
    AnyChar
  | OneOf "char list"
  | NoneOf "char list"

fun in_cset :: "cset \<Rightarrow> char \<Rightarrow> bool" where
  "in_cset AnyChar c = True"
| "in_cset (OneOf cs) c = (c \<in> set cs)"
| "in_cset (NoneOf cs) c = (c \<notin> set cs)"

datatype regex =
    Bol
  | Eol
  | Atom cset
  | Quant cset nat "nat option" bool
  | Empty
  | Seq regex regex
  | Alt regex regex
  | Group nat regex

text \<open>
  A state of the matcher is the index reached in the input and the captures made so far.
  \<open>matches s r st\<close> lists the states in which \<open>r\<close> can end when started in \<open>st\<close>, in
  the order in which a backtracking matcher tries them: the left alternative before the
  right one, more repetitions before fewer for a greedy quantifier
  (\<open>Quant cs lo hi True\<close>) and fewer before more for a lazy one. What follows \<open>r\<close> in a
  sequence is tried on each of these states in turn, so the first state of the list for
  the whole pattern is the match that \<^verbatim>\<open>exec\<close> reports.
\<close>

type_synonym mstate = "nat \<times> string option list"

fun matches :: "string \<Rightarrow> regex \<Rightarrow> mstate \<Rightarrow> mstate list" where
  "matches s Bol (i, caps) = (if i = 0 then [(i, caps)] else [])"
| "matches s Eol (i, caps) = (if i = length s then [(i, caps)] else [])"
| "matches s (Atom cs) (i, caps) =
     (if i < length s \<and> in_cset cs (s ! i) then [(Suc i, caps)] else [])"
| "matches s (Quant cs lo hi greedy) (i, caps) =
     (let run = length (takeWhile (in_cset cs) (drop i s));
          most = (case hi of None \<Rightarrow> run | Some h \<Rightarrow> min run h);
          counts = [lo..<Suc most]
      in map (\<lambda>k. (i + k, caps)) (if greedy then rev counts else counts))"
| "matches s Empty st = [st]"
| "matches s (Seq r1 r2) st = concat (map (matches s r2) (matches s r1 st))"
| "matches s (Alt r1 r2) st = matches s r1 st @ matches s r2 st"
| "matches s (Group n r) (i, caps) =
     map (\<lambda>(j, caps'). (j, caps'[n := Some (take (j - i) (drop i s))]))
         (matches s r (i, caps))"

text \<open>
  \<^verbatim>\<open>re.exec(s)\<close> for a pattern without flags: the match is attempted at the start
  indices \<open>0, 1, ..., length s\<close> in turn. The result is \<open>null\<close> (\<open>None\<close>) or the array of
  the matched text followed by the text of the groups \<open>1..ngroups\<close>, \<open>undefined\<close>
  (\<open>None\<close>) for a group that took no part in the match.
\<close>

fun exec_at :: "regex \<Rightarrow> nat \<Rightarrow> string \<Rightarrow> nat list \<Rightarrow> string option list option" where
  "exec_at re ngroups s [] = None"
| "exec_at re ngroups s (i # starts) =
     (case matches s re (i, replicate (Suc ngroups) None) of
        [] \<Rightarrow> exec_at re ngroups s starts
      | (j, caps) # rest \<Rightarrow> Some (caps[0 := Some (take (j - i) (drop i s))]))"

definition exec :: "regex \<Rightarrow> nat \<Rightarrow> string \<Rightarrow> string option list option" where
  "exec re ngroups s = exec_at re ngroups s [0..<Suc (length s)]"

subsection \<open>\<^verbatim>\<open>splitPathRe\<close> and \<^verbatim>\<open>posixSplitPath\<close>\<close>

text \<open>
  \<^verbatim>\<open>/^(\/?|)([\s\S]*?)((?:\.{1,2}|[^\/]+?|)(\.[^.\/]*|))(?:[\/]*)$/\<close>
\<close>

definition splitPathRe :: regex where
  "splitPathRe =
     Seq Bol
    (Seq (Group 1 (Alt (Quant (OneOf ''/'') 0 (Some 1) True) Empty))
    (Seq (Group 2 (Quant AnyChar 0 None False))
    (Seq (Group 3
            (Seq (Alt (Quant (OneOf ''.'') 1 (Some 2) True)
                 (Alt (Quant (NoneOf ''/'') 1 None False)
                      Empty))
                 (Group 4 (Alt (Seq (Atom (OneOf ''.'')) (Quant (NoneOf ''./'') 0 None True))
                               Empty))))
    (Seq (Quant (OneOf ''/'') 0 None True)
         Eol))))"

text \<open>
  \<^verbatim>\<open>splitPathRe.exec(filename)!.slice(1)\<close>. The \<^verbatim>\<open>!\<close> is a type assertion only: on
  \<open>null\<close> the call of \<^verbatim>\<open>slice\<close> throws a TypeError. The result has the type
  \<^verbatim>\<open>string[]\<close>; \<open>group_text\<close> reads a group as a string, and every group of
  \<^verbatim>\<open>splitPathRe\<close> takes part in every match (lemma \<open>exec_splitPathRe\<close> below), so its
  second equation is never used.
\<close>

fun group_text :: "string option \<Rightarrow> string" where
  "group_text (Some t) = t"
| "group_text None = []"

definition posixSplitPath :: "string \<Rightarrow> error + string list" where
  "posixSplitPath filename =
     (case exec splitPathRe 4 filename of
        None \<Rightarrow> Inl (TypeError ''Cannot read properties of null'')
      | Some m \<Rightarrow> Inr (map group_text (drop 1 m)))"

section \<open>resolve, join and relative\<close>

text \<open>
  \<^verbatim>\<open>getCwd\<close> reads the global \<^verbatim>\<open>process\<close>: \<open>None\<close> when there is none, \<open>Some cwd\<close>
  when \<^verbatim>\<open>process.cwd()\<close> returns \<open>cwd\<close>.
\<close>

definition getCwd :: "string option \<Rightarrow> string" where
  "getCwd process = (case process of Some cwd \<Rightarrow> cwd | None \<Rightarrow> ''/'')"

text \<open>
  The loop of \<^verbatim>\<open>resolve\<close>, with the arguments still to visit given last first
  (\<open>i = length args - 1\<close> down to \<open>0\<close>); the empty list is the round \<open>i = -1\<close>, which
  reads the working directory and is the last one. The state is
  \<open>(resolvedPath, resolvedAbsolute)\<close>.
\<close>

fun resolve_loop :: "string option \<Rightarrow> jsval list \<Rightarrow> string \<Rightarrow> bool \<Rightarrow> error + string \<times> bool" where
  "resolve_loop process [] resolvedPath resolvedAbsolute =
     (if resolvedAbsolute then Inr (resolvedPath, resolvedAbsolute)
      else let path = getCwd process
           in if path = [] then Inr (resolvedPath, resolvedAbsolute)
              else Inr (path @ ''/'' @ resolvedPath, charAt path 0 = ''/''))"
| "resolve_loop process (JStr path # args) resolvedPath resolvedAbsolute =
     (if resolvedAbsolute then Inr (resolvedPath, resolvedAbsolute)
      else if path = [] then resolve_loop process args resolvedPath resolvedAbsolute
      else resolve_loop process args (path @ ''/'' @ resolvedPath) (charAt path 0 = ''/''))"
| "resolve_loop process (v # args) resolvedPath resolvedAbsolute =
     (if resolvedAbsolute then Inr (resolvedPath, resolvedAbsolute)
      else Inl (TypeError ''Arguments to path.resolve must be strings''))"

text \<open>
  In the \<^verbatim>\<open>return\<close> of \<^verbatim>\<open>resolve\<close>, \<^verbatim>\<open>+\<close> binds tighter than \<^verbatim>\<open>??\<close>: the left
  operand of \<^verbatim>\<open>??\<close> is the concatenation, a string.
\<close>

definition resolve :: "string option \<Rightarrow> jsval list \<Rightarrow> error + string" where
  "resolve process args =
     (case resolve_loop process (rev args) [] False of
        Inl e \<Rightarrow> Inl e
      | Inr (resolvedPath, resolvedAbsolute) \<Rightarrow>
          let resolvedPath' =
                js_join ''/'' (normalizeArray (js_split CHR ''/'' resolvedPath) (\<not> resolvedAbsolute))
          in Inr (to_string (nullish (JStr ((if resolvedAbsolute then ''/'' else []) @ resolvedPath'))
                                     (JStr ''.''))))"

fun join_loop :: "string \<Rightarrow> jsval list \<Rightarrow> error + string" where
  "join_loop path [] = Inr path"
| "join_loop path (JStr segment # args) =
     (if segment \<noteq> [] then
        (if path = [] then join_loop (path @ segment) args
         else join_loop (path @ ''/'' @ segment) args)
      else join_loop path args)"
| "join_loop path (v # args) = Inl (TypeError ''Arguments to path.join must be strings'')"

definition join :: "jsval list \<Rightarrow> error + string" where
  "join args =
     (case join_loop [] args of
        Inl e \<Rightarrow> Inl e
      | Inr path \<Rightarrow> Inr (normalize path))"

text \<open>The two scans and the \<^verbatim>\<open>slice\<close> of the local function \<^verbatim>\<open>trim\<close>.\<close>

function trim_start :: "string list \<Rightarrow> nat \<Rightarrow> nat" where
  "trim_start arr start =
     (if start < length arr
      then (if arr ! start \<noteq> [] then start else trim_start arr (Suc start))
      else start)"
  by pat_completeness auto
termination
  by (relation "measure (\<lambda>(arr, start). length arr - start)") auto

function trim_end :: "string list \<Rightarrow> int \<Rightarrow> int" where
  "trim_end arr end =
     (if end \<ge> 0
      then (if arr ! nat end \<noteq> [] then end else trim_end arr (end - 1))
      else end)"
  by pat_completeness auto
termination
  by (relation "measure (\<lambda>(arr, end). nat (end + 1))") auto

definition trim :: "string list \<Rightarrow> string list" where
  "trim arr =
     (let start = trim_start arr 0;
          end = trim_end arr (int (length arr) - 1)
      in if int start > end then []
         else take (nat (end + 1) - start) (drop start arr))"

text \<open>The loop that finds \<^verbatim>\<open>samePartsLength\<close>, from index \<open>i\<close> on.\<close>

function sameParts :: "string list \<Rightarrow> string list \<Rightarrow> nat \<Rightarrow> nat \<Rightarrow> nat" where
  "sameParts fromParts toParts len i =
     (if i < len
      then (if fromParts ! i \<noteq> toParts ! i then i
            else sameParts fromParts toParts len (Suc i))
      else len)"
  by pat_completeness auto
termination
  by (relation "measure (\<lambda>(fromParts, toParts, len, i). len - i)") auto

definition relative :: "string option \<Rightarrow> string \<Rightarrow> string \<Rightarrow> error + string" where
  "relative process from to =
     (case resolve process [JStr from] of
        Inl e \<Rightarrow> Inl e
      | Inr rfrom \<Rightarrow>
     (case resolve process [JStr to] of
        Inl e \<Rightarrow> Inl e
      | Inr rto \<Rightarrow>
          let from' = substring rfrom 1;
              to' = substring rto 1;
              fromParts = trim (js_split CHR ''/'' from');
              toParts = trim (js_split CHR ''/'' to');
              len = min (length fromParts) (length toParts);
              samePartsLength = sameParts fromParts toParts len 0;
              outputParts = replicate (length fromParts - samePartsLength) ''..''
              in Inr (js_join ''/'' (outputParts @ drop samePartsLength toParts))))"

section \<open>dirname, basename, extname\<close>

definition dirname :: "string \<Rightarrow> error + string" where
  "dirname path =
     (case posixSplitPath path of
        Inl e \<Rightarrow> Inl e
      | Inr result \<Rightarrow>
          let root = result ! 0;
              dir = result ! 1
          in if root = [] \<and> dir = [] then Inr ''.''
             else Inr (root @ (if dir \<noteq> [] then substr dir 0 (Some (int (length dir) - 1)) else dir)))"

text \<open>The optional parameter \<^verbatim>\<open>ext\<close> is \<open>None\<close> when it is not given.\<close>

definition basename :: "string \<Rightarrow> string option \<Rightarrow> error + string" where
  "basename path ext =
     (case posixSplitPath path of
        Inl e \<Rightarrow> Inl e
      | Inr result \<Rightarrow>
          let f = result ! 2
          in (case ext of
                None \<Rightarrow> Inr f
              | Some x \<Rightarrow>
                  if x \<noteq> [] \<and> substr f (-1 * int (length x)) None = x
                  then Inr (substr f 0 (Some (int (length f) - int (length x))))
                  else Inr f))"

definition extname :: "string \<Rightarrow> error + string" where
  "extname path =
     (case posixSplitPath path of
        Inl e \<Rightarrow> Inl e
      | Inr result \<Rightarrow> Inr (result ! 3))"

section \<open>parse and format\<close>

record Path =
  root :: string
  dir :: string
  base :: string
  ext :: string
  name :: string

text \<open>The object that \<^verbatim>\<open>parse\<close> returns, as a value.\<close>

definition Path_object :: "Path \<Rightarrow> jsval" where
  "Path_object p =
     JObj [(''root'', JStr (root p)), (''dir'', JStr (dir p)), (''base'', JStr (base p)),
           (''ext'', JStr (ext p)), (''name'', JStr (name p))]"

definition format :: "jsval \<Rightarrow> error + string" where
  "format pathObject =
     (if \<not> isObject pathObject
      then Inl (TypeError (''Parameter 'pathObject' must be an object, not '' @ typeof pathObject))
      else let root' = nullish (get_prop pathObject ''root'') (JStr [])
      in if \<not> isString root'
         then Inl (TypeError ([CHR 0x27] @ ''pathObject.root' must be a string or undefined, not ''
                              @ typeof (get_prop pathObject ''root'')))
         else let dir' = (if truthy (get_prop pathObject ''dir'')
                          then to_string (get_prop pathObject ''dir'') @ sep else []);
                  base' = nullish (get_prop pathObject ''base'') (JStr [])
              in Inr (dir' @ to_string base'))"

definition parse :: "jsval \<Rightarrow> error + Path" where
  "parse pathString =
     (case pathString of
        JStr s \<Rightarrow>
          (case posixSplitPath s of
             Inl e \<Rightarrow> Inl e
           | Inr allParts \<Rightarrow>
               if length allParts \<noteq> 4
               then Inl (TypeError (''Invalid path '' @ [CHR 0x27] @ s @ [CHR 0x27]))
               else Inr \<lparr>root = allParts ! 0,
                         dir = allParts ! 0
                               @ slice (allParts ! 1) 0 (int (length (allParts ! 1)) - 1),
                         base = allParts ! 2,
                         ext = allParts ! 3,
                         name = slice (allParts ! 2) 0
                                  (int (length (allParts ! 2)) - int (length (allParts ! 3)))\<rparr>)
      | v \<Rightarrow> Inl (TypeError (''Parameter 'pathString' must be a string, not '' @ typeof v)))"

section \<open>The contracts of the specification\<close>

text \<open>
  The contract of the segment normalizer, in the words of the specification: one pass from
  left to right over the segments, with the result accumulated so far.
\<close>

definition spec_segment_step :: "bool \<Rightarrow> string list \<Rightarrow> string \<Rightarrow> string list" where
  "spec_segment_step allowAboveRoot acc seg =
     (if seg = [] \<or> seg = ''.'' then acc
      else if seg = ''..'' then
        (if acc \<noteq> [] \<and> last acc \<noteq> ''..'' then butlast acc
         else if allowAboveRoot then acc @ [''..'']
         else acc)
      else acc @ [seg])"

definition spec_normalizer :: "bool \<Rightarrow> string list \<Rightarrow> string list" where
  "spec_normalizer allowAboveRoot segs = foldl (spec_segment_step allowAboveRoot) [] segs"

text \<open>
  The contract of \<^verbatim>\<open>normalize\<close>, in the words of the specification: the result of the
  normalizer, rejoined, with the leading slash restored; \<open>"."\<close> is returned when the
  rejoined result is empty and the path is not absolute; the trailing slash is appended
  again when the path had one and the rejoined result is not empty.
\<close>

definition spec_normalize :: "string \<Rightarrow> string" where
  "spec_normalize p =
     (let absolute = (p \<noteq> [] \<and> hd p = CHR ''/'');
          trailing = (p \<noteq> [] \<and> last p = CHR ''/'');
          result = js_join ''/'' (normalizeArray (js_split CHR ''/'' p) (\<not> absolute))
      in if result = [] \<and> \<not> absolute then ''.''
         else (if absolute then ''/'' else []) @ result
              @ (if trailing \<and> result \<noteq> [] then ''/'' else []))"

text \<open>
  The same contract with the two last steps in the order of the code: an empty result of a
  path that is not absolute is replaced by \<open>"."\<close> first, and the trailing slash is then
  appended to whatever is not empty, the \<open>"."\<close> included.
\<close>

definition spec_normalize_amended :: "string \<Rightarrow> string" where
  "spec_normalize_amended p =
     (let absolute = (p \<noteq> [] \<and> hd p = CHR ''/'');
          trailing = (p \<noteq> [] \<and> last p = CHR ''/'');
          result = js_join ''/'' (normalizeArray (js_split CHR ''/'' p) (\<not> absolute));
          result' = (if result = [] \<and> \<not> absolute then ''.'' else result)
      in (if absolute then ''/'' else []) @ result'
         @ (if trailing \<and> result' \<noteq> [] then ''/'' else []))"

text \<open>
  The final component of a path: what stands after the last slash, once the slashes that
  end the path are dropped.
\<close>

definition final_component :: "string \<Rightarrow> string" where
  "final_component p =
     rev (takeWhile (\<lambda>c. c \<noteq> CHR ''/'') (dropWhile (\<lambda>c. c = CHR ''/'') (rev p)))"

text \<open>
  "One or two leading dots with no further dot", the second case in which the extension
  is said to be empty.
\<close>

definition spec_leading_dots :: "string \<Rightarrow> bool" where
  "spec_leading_dots b \<longleftrightarrow>
     (take 1 b = ''.'' \<and> CHR ''.'' \<notin> set (drop 1 b))
     \<or> (take 2 b = ''..'' \<and> CHR ''.'' \<notin> set (drop 2 b))"

text \<open>
  The extension of a component as the code computes it: empty when the component is
  \<open>".."\<close> or has no dot after its first character, and otherwise the part of the
  component that starts at its last dot.
\<close>

definition spec_ext :: "string \<Rightarrow> string" where
  "spec_ext b =
     (if b = ''..'' \<or> CHR ''.'' \<notin> set (drop 1 b) then []
      else CHR ''.'' # rev (takeWhile (\<lambda>c. c \<noteq> CHR ''.'') (rev b)))"

text \<open>The string in the property \<open>k\<close> of an object; empty when the object has none or it is no string.\<close>

definition string_field :: "(string \<times> jsval) list \<Rightarrow> string \<Rightarrow> string" where
  "string_field fs k = (case map_of fs k of Some (JStr s) \<Rightarrow> s | _ \<Rightarrow> [])"

text \<open>\<^verbatim>\<open>format(parse(p))\<close>.\<close>

definition format_parse :: "string \<Rightarrow> error + string" where
  "format_parse p =
     (case parse (JStr p) of
        Inl e \<Rightarrow> Inl e
      | Inr r \<Rightarrow> format (Path_object r))"

text \<open>
  The two sides of the relative round trip:
  \<^verbatim>\<open>normalize(join(from, relative(from, to)))\<close> and \<^verbatim>\<open>normalize(resolve(to))\<close>.
\<close>

definition relative_roundtrip :: "string option \<Rightarrow> string \<Rightarrow> string \<Rightarrow> error + string" where
  "relative_roundtrip process from to =
     (case relative process from to of
        Inl e \<Rightarrow> Inl e
      | Inr rel \<Rightarrow>
          (case join [JStr from, JStr rel] of
             Inl e \<Rightarrow> Inl e
           | Inr joined \<Rightarrow> Inr (normalize joined)))"

definition resolve_normalized :: "string option \<Rightarrow> string \<Rightarrow> error + string" where
  "resolve_normalized process to =
     (case resolve process [JStr to] of
        Inl e \<Rightarrow> Inl e
      | Inr resolved \<Rightarrow> Inr (normalize resolved))"

section \<open>Notions used in the proofs\<close>

text \<open>A segment that is a name: not empty, not \<open>"."\<close> and not \<open>".."\<close>.\<close>

definition real_seg :: "string \<Rightarrow> bool" where
  "real_seg x \<longleftrightarrow> x \<noteq> [] \<and> x \<noteq> ''.'' \<and> x \<noteq> ''..''"

text \<open>
  The shape of what the normalizer returns: some \<open>".."\<close> (none unless \<open>allowAboveRoot\<close>),
  then names only.
\<close>

definition normal_form :: "bool \<Rightarrow> string list \<Rightarrow> bool" where
  "normal_form a xs \<longleftrightarrow>
     (\<exists>n ys. xs = replicate n ''..'' @ ys \<and> (\<forall>y\<in>set ys. real_seg y) \<and> (\<not> a \<longrightarrow> n = 0))"

text \<open>A string of slashes only.\<close>

definition slashes :: "string \<Rightarrow> bool" where
  "slashes u \<longleftrightarrow> set u \<subseteq> {CHR ''/''}"

text \<open>
  The parts of a path around its final component: the leading slash, the directory part
  (with its last slash) and the slashes that end the path.
\<close>

definition root_part :: "string \<Rightarrow> string" where
  "root_part p = (if p \<noteq> [] \<and> hd p = CHR ''/'' then ''/'' else [])"

definition dir_part :: "string \<Rightarrow> string" where
  "dir_part p =
     rev (dropWhile (\<lambda>c. c \<noteq> CHR ''/'') (dropWhile (\<lambda>c. c = CHR ''/'') (rev p)))"

definition trailing_slashes :: "string \<Rightarrow> string" where
  "trailing_slashes p = takeWhile (\<lambda>c. c = CHR ''/'') (rev p)"

text \<open>
  The sub-patterns of \<^verbatim>\<open>splitPathRe\<close>: \<^verbatim>\<open>(?:\.{1,2}|[^\/]+?|)\<close>, the fourth group
  \<^verbatim>\<open>(\.[^.\/]*|)\<close>, and everything after the second group.
\<close>

definition reX :: regex where
  "reX = Alt (Quant (OneOf ''.'') 1 (Some 2) True) (Alt (Quant (NoneOf ''/'') 1 None False) Empty)"

definition reG4 :: regex where
  "reG4 = Group 4 (Alt (Seq (Atom (OneOf ''.'')) (Quant (NoneOf ''./'') 0 None True)) Empty)"

definition reTail :: regex where
  "reTail = Seq (Group 3 (Seq reX reG4)) (Seq (Quant (OneOf ''/'') 0 None True) Eol)"

text \<open>
  The lengths that the matcher tries, in its order, on the input \<open>u\<close> that is left: for
  the first part of the third group (\<open>xoffs\<close>), for the fourth group (\<open>eoffs\<close>), and
  for both (\<open>tail_cands\<close>). \<open>acc b x\<close> holds when a first part of length \<open>x\<close> can be
  completed to the whole component \<open>b\<close>.
\<close>

definition xoffs :: "string \<Rightarrow> nat list" where
  "xoffs u = rev [1..<Suc (min (length (takeWhile (\<lambda>c. c = CHR ''.'') u)) 2)]
             @ [1..<Suc (length (takeWhile (\<lambda>c. c \<noteq> CHR ''/'') u))] @ [0]"

definition eoffs :: "string \<Rightarrow> nat list" where
  "eoffs v = (case v of [] \<Rightarrow> []
              | a # v' \<Rightarrow> if a = CHR ''.''
                  then map Suc (rev [0..<Suc (length (takeWhile (\<lambda>c. c \<noteq> CHR ''.'' \<and> c \<noteq> CHR ''/'') v'))])
                  else []) @ [0]"

definition tail_cands :: "string \<Rightarrow> (nat \<times> nat) list" where
  "tail_cands u = concat (map (\<lambda>x. map (Pair x) (eoffs (drop x u))) (xoffs u))"

definition acc :: "string \<Rightarrow> nat \<Rightarrow> bool" where
  "acc b x \<longleftrightarrow> x = length b \<or> (x < length b \<and> b ! x = CHR ''.'' \<and> CHR ''.'' \<notin> set (drop (Suc x) b))"

text \<open>
  The segments of the path that \<^verbatim>\<open>resolve\<close> makes of one argument, when the working
  directory is absolute.
\<close>

definition resolved_parts :: "string option \<Rightarrow> string \<Rightarrow> string list" where
  "resolved_parts process x =
     normalizeArray (js_split CHR ''/''
       (if isAbsolute x then x
        else if x = [] then getCwd process
        else getCwd process @ ''/'' @ x)) False"

section \<open>Strings and arrays\<close>

lemma isAbsolute_iff: "isAbsolute p \<longleftrightarrow> p \<noteq> [] \<and> hd p = CHR ''/''"
  by (cases p) (simp_all add: isAbsolute_def charAt_def)

lemma trailing_slash_iff: "substr p (-1) None = ''/'' \<longleftrightarrow> p \<noteq> [] \<and> last p = CHR ''/''"
proof (cases p rule: rev_cases)
  case Nil
  then show ?thesis by (simp add: substr_def)
next
  case (snoc ys y)
  then show ?thesis by (simp add: substr_def Let_def nat_add_distrib)
qed

lemma js_split_not_Nil [simp]: "js_split c s \<noteq> []"
  by (induction s) (auto split: list.splits)

lemma js_split_append: "js_split c (a @ c # b) = js_split c a @ js_split c b"
  by (induction a) (auto split: list.splits)

lemma js_split_no_sep: "c \<notin> set s \<Longrightarrow> js_split c s = [s]"
  by (induction s) auto

lemma js_split_segments: "x \<in> set (js_split c s) \<Longrightarrow> c \<notin> set x"
  by (induction s arbitrary: x) (auto split: if_splits list.splits)

lemma js_split_join:
  "xs \<noteq> [] \<Longrightarrow> \<forall>x\<in>set xs. c \<notin> set x \<Longrightarrow> js_split c (js_join [c] xs) = xs"
proof (induction xs)
  case Nil
  then show ?case by simp
next
  case (Cons x xs)
  show ?case
  proof (cases xs)
    case Nil
    with Cons.prems show ?thesis by (simp add: js_split_no_sep)
  next
    case (Cons y ys)
    with Cons.prems Cons.IH show ?thesis
      using js_split_append [of c x "js_join [c] xs"]
      by (simp add: js_split_no_sep)
  qed
qed

section \<open>Properties of the segment normalizer\<close>

lemma normalizeArray_loop_append:
  "normalizeArray_loop a res (xs @ ys) = normalizeArray_loop a (normalizeArray_loop a res xs) ys"
  by (induction xs arbitrary: res) auto

lemma loop_Cons:
  "normalizeArray_loop a res (p # parts) =
     (if p = [] \<or> p = ''.'' then normalizeArray_loop a res parts
      else if p = ''..'' then
        (if res \<noteq> [] \<and> last res \<noteq> ''..'' then normalizeArray_loop a (butlast res) parts
         else if a then normalizeArray_loop a (res @ [''..'']) parts
         else normalizeArray_loop a res parts)
      else normalizeArray_loop a (res @ [p]) parts)"
  by (cases "res = []") (simp_all add: last_conv_nth)

declare normalizeArray_loop.simps(2) [simp del]
declare loop_Cons [simp]

lemma loop_real: "\<forall>x\<in>set parts. real_seg x \<Longrightarrow> normalizeArray_loop a res parts = res @ parts"
  by (induction parts arbitrary: res) (auto simp: real_seg_def)

lemma loop_dots_True:
  "\<forall>x\<in>set res. x = ''..'' \<Longrightarrow> normalizeArray_loop True res (replicate n ''..'') = res @ replicate n ''..''"
proof (induction n arbitrary: res)
  case 0
  then show ?case by simp
next
  case (Suc n)
  have "normalizeArray_loop True res (''..'' # replicate n ''..'') = normalizeArray_loop True (res @ [''..'']) (replicate n ''..'')"
    using Suc.prems by (cases res rule: rev_cases) auto
  also have "\<dots> = (res @ [''..'']) @ replicate n ''..''"
    using Suc.prems by (intro Suc.IH) auto
  finally show ?case by (simp add: replicate_app_Cons_same)
qed

lemma normal_form_fixed: "normal_form a xs \<Longrightarrow> normalizeArray_loop a [] xs = xs"
proof -
  assume "normal_form a xs"
  then obtain n ys where xs: "xs = replicate n ''..'' @ ys" and ys: "\<forall>y\<in>set ys. real_seg y" and n: "\<not> a \<longrightarrow> n = 0"
    by (auto simp: normal_form_def)
  show ?thesis
  proof (cases a)
    case True
    then show ?thesis using xs ys loop_dots_True [of "[]" n]
      by (simp add: normalizeArray_loop_append loop_real)
  next
    case False
    then show ?thesis using xs ys n by (simp add: loop_real)
  qed
qed

lemma normal_form_step:
  assumes "normal_form a r"
  shows "normal_form a (normalizeArray_loop a r [p])"
proof -
  from assms obtain n ys where r: "r = replicate n ''..'' @ ys" and ys: "\<forall>y\<in>set ys. real_seg y" and n: "\<not> a \<longrightarrow> n = 0"
    by (auto simp: normal_form_def)
  consider (skip) "p = [] \<or> p = ''.''" | (up) "p = ''..''" | (seg) "real_seg p"
    by (auto simp: real_seg_def)
  then show ?thesis
  proof cases
    case skip
    then show ?thesis using assms by auto
  next
    case seg
    then have "normalizeArray_loop a r [p] = replicate n ''..'' @ (ys @ [p])"
      using r by (auto simp: real_seg_def)
    moreover have "\<forall>y\<in>set (ys @ [p]). real_seg y" using ys seg by simp
    ultimately show ?thesis using n unfolding normal_form_def by blast
  next
    case up
    show ?thesis
    proof (cases ys rule: rev_cases)
      case Nil
      show ?thesis
      proof (cases a)
        case True
        have "normalizeArray_loop a r [p] = replicate (Suc n) ''..'' @ []"
          using up r Nil True by (cases n) (auto simp: replicate_append_same)
        then show ?thesis using True unfolding normal_form_def by (metis empty_iff list.set(1))
      next
        case False
        then have "normalizeArray_loop a r [p] = r" using up r Nil n by simp
        then show ?thesis using assms by simp
      qed
    next
      case (snoc zs z)
      then have "real_seg z" using ys by simp
      then have "normalizeArray_loop a r [p] = replicate n ''..'' @ zs"
        using up r snoc by (simp add: real_seg_def butlast_append flip: append_assoc)
      moreover have "\<forall>y\<in>set zs. real_seg y" using ys snoc by simp
      ultimately show ?thesis using n unfolding normal_form_def by blast
    qed
  qed
qed

lemma normal_form_loop: "normal_form a r \<Longrightarrow> normal_form a (normalizeArray_loop a r parts)"
proof (induction parts rule: rev_induct)
  case Nil
  then show ?case by simp
next
  case (snoc p parts)
  then show ?case
    using normal_form_step [of a "normalizeArray_loop a r parts" p]
    by (simp add: normalizeArray_loop_append)
qed

lemma normal_form_normalizeArray: "normal_form a (normalizeArray parts a)"
  unfolding normalizeArray_def
  by (rule normal_form_loop) (simp add: normal_form_def)

lemma loop_subset: "set (normalizeArray_loop a r parts) \<subseteq> set r \<union> set parts \<union> {''..''}"
proof (induction parts arbitrary: r)
  case Nil
  then show ?case by auto
next
  case (Cons p parts)
  have b: "set (butlast r) \<subseteq> set r" by (meson in_set_butlastD subsetI)
  have "set (normalizeArray_loop a r (p # parts)) \<subseteq> set r \<union> set (p # parts) \<union> {''..''}"
    if "normalizeArray_loop a r (p # parts) = normalizeArray_loop a r' parts"
      and "set r' \<subseteq> set r \<union> {p} \<union> {''..''}" for r'
    using that Cons.IH [of r'] by auto
  moreover have "\<exists>r'. normalizeArray_loop a r (p # parts) = normalizeArray_loop a r' parts
      \<and> set r' \<subseteq> set r \<union> {p} \<union> {''..''}"
    using b by (auto intro: exI [of _ r] exI [of _ "butlast r"])
  ultimately show ?case by blast
qed

section \<open>Properties of normalize\<close>

lemma real_seg_nonempty: "real_seg x \<Longrightarrow> x \<noteq> []"
  by (simp add: real_seg_def)

lemma normal_form_nonempty:
  assumes "normal_form a xs" and "x \<in> set xs"
  shows "x \<noteq> []"
proof -
  from assms(1) obtain n ys where xs: "xs = replicate n ''..'' @ ys" and ys: "\<forall>y\<in>set ys. real_seg y"
    unfolding normal_form_def by blast
  from assms(2) xs have "x = ''..'' \<or> x \<in> set ys" by auto
  then show ?thesis using ys real_seg_def by auto
qed

lemma js_join_eq_Nil: "\<forall>x\<in>set xs. x \<noteq> [] \<Longrightarrow> js_join sp xs = [] \<longleftrightarrow> xs = []"
  by (induction sp xs rule: js_join.induct) auto

lemma hd_js_join: "xs \<noteq> [] \<Longrightarrow> hd xs \<noteq> [] \<Longrightarrow> hd (js_join sp xs) = hd (hd xs)"
  by (induction sp xs rule: js_join.induct) auto

lemma js_join_last_nonempty: "xs \<noteq> [] \<Longrightarrow> last xs \<noteq> [] \<Longrightarrow> js_join sp xs \<noteq> []"
  by (induction sp xs rule: js_join.induct) auto

lemma last_js_join: "xs \<noteq> [] \<Longrightarrow> last xs \<noteq> [] \<Longrightarrow> last (js_join sp xs) = last (last xs)"
proof (induction sp xs rule: js_join.induct)
  case (3 sp x y ys)
  then have "js_join sp (y # ys) \<noteq> []" using js_join_last_nonempty [of "y # ys" sp] by simp
  with 3 show ?case by simp
qed simp_all

lemma normalizeArray_segments:
  assumes "x \<in> set (normalizeArray (js_split c s) a)" shows "c \<noteq> CHR ''.'' \<Longrightarrow> c \<notin> set x"
  using assms loop_subset [of a "[]" "js_split c s"] js_split_segments [of x c s]
  by (auto simp: normalizeArray_def)

lemma normal_form_pad:
  assumes "normal_form a N" and that: "set pre \<subseteq> {[]}" "set post \<subseteq> {[]}"
  shows "normalizeArray (pre @ N @ post) a = N"
proof -
  have e: "normalizeArray_loop a r xs = r" if "set xs \<subseteq> {[]}" for r xs
    using that by (induction xs arbitrary: r) auto
  show ?thesis
    using assms by (simp add: normalizeArray_def normalizeArray_loop_append e normal_form_fixed)
qed

lemma normalize_normal:
  assumes nf: "normal_form (\<not> ab) N"
    and seg: "\<forall>x\<in>set N. CHR ''/'' \<notin> set x"
    and ne: "N \<noteq> []"
    and t: "t = [] \<or> t = ''/''"
  shows "normalize ((if ab then ''/'' else []) @ js_join ''/'' N @ t)
         = (if ab then ''/'' else []) @ js_join ''/'' N @ t"
proof -
  let ?J = "js_join ''/'' N"
  let ?q = "(if ab then ''/'' else []) @ ?J @ t"
  have nonempty: "\<forall>x\<in>set N. x \<noteq> []" using nf normal_form_nonempty by blast
  have J: "?J \<noteq> []" using nonempty ne by (simp add: js_join_eq_Nil)
  have hdJ: "hd ?J \<noteq> CHR ''/''"
    using hd_js_join [of N "''/''"] ne nonempty seg by (metis hd_in_set list.set_sel(1))
  have lastJ: "last ?J \<noteq> CHR ''/''"
    using last_js_join [of N "''/''"] ne nonempty seg by (metis last_in_set)
  have ab: "isAbsolute ?q = ab"
    using J hdJ by (auto simp: isAbsolute_iff)
  have trail: "substr ?q (-1) None = ''/'' \<longleftrightarrow> t = ''/''"
    unfolding trailing_slash_iff using J lastJ t by auto
  have splitJ: "js_split CHR ''/'' ?J = N"
    using js_split_join [of N "CHR ''/''"] ne seg by simp
  have splitJt: "js_split CHR ''/'' (?J @ t) = N @ (if t = [] then [] else [[]])"
    using t splitJ js_split_append [of "CHR ''/''" ?J "[]"] by auto
  have split: "js_split CHR ''/'' ?q = (if ab then [[]] else []) @ N @ (if t = [] then [] else [[]])"
    using splitJt by simp
  have norm: "normalizeArray (js_split CHR ''/'' ?q) (\<not> ab) = N"
    unfolding split by (rule normal_form_pad [OF nf]) auto
  show ?thesis
    unfolding normalize_def [of ?q] Let_def ab trail norm using J t by auto
qed

section \<open>Properties of resolve, join, format and basename\<close>

lemma isString_iff: "isString v \<longleftrightarrow> (\<exists>s. v = JStr s)"
  by (cases v) (simp_all add: isString_def)

lemma resolve_loop_strings:
  "ra \<or> isAbsolute (getCwd process) \<Longrightarrow>
   \<exists>rp'. resolve_loop process (map JStr xs) rp ra = Inr (rp', True)"
proof (induction xs arbitrary: rp ra)
  case Nil
  then show ?case by (auto simp: isAbsolute_def charAt_def Let_def)
next
  case (Cons x xs)
  show ?case
  proof (cases ra)
    case True
    then show ?thesis by simp
  next
    case False
    with Cons.prems have cwd: "isAbsolute (getCwd process)" by simp
    show ?thesis
      using False Cons.IH [of False rp] Cons.IH [of "charAt x 0 = ''/''" "x @ ''/'' @ rp"] cwd
      by simp
  qed
qed

lemma get_prop_string:
  assumes "\<forall>v\<in>snd ` set fs. isString v"
  shows "get_prop (JObj fs) k = JUndefined \<and> string_field fs k = []
       \<or> get_prop (JObj fs) k = JStr (string_field fs k)"
proof (cases "map_of fs k")
  case None
  then show ?thesis by (simp add: string_field_def)
next
  case (Some v)
  then have "v \<in> snd ` set fs" by (metis map_of_SomeD snd_conv image_eqI)
  with assms obtain s where "v = JStr s" by (auto simp: isString_iff)
  with Some show ?thesis by (simp add: string_field_def)
qed

lemma join_loop_non_string:
  assumes "\<exists>v\<in>set args. \<not> isString v"
  shows "join_loop path args = Inl (TypeError ''Arguments to path.join must be strings'')"
  using assms
proof (induction args arbitrary: path)
  case Nil
  then show ?case by simp
next
  case (Cons a args)
  show ?case
  proof (cases a)
    case (JStr s)
    with Cons.prems have "\<exists>v\<in>set args. \<not> isString v" by (simp add: isString_def)
    with Cons.IH JStr show ?thesis by simp
  qed simp_all
qed

lemma resolve_loop_non_string:
  assumes "\<not> isString v"
    and "\<forall>x\<in>set post. \<forall>s. x = JStr s \<longrightarrow> \<not> isAbsolute s"
  shows "resolve_loop process (post @ v # pre) rp False
         = Inl (TypeError ''Arguments to path.resolve must be strings'')"
  using assms
proof (induction post arbitrary: rp)
  case Nil
  then show ?case by (cases v) (simp_all add: isString_def)
next
  case (Cons a post)
  then have IH: "resolve_loop process (post @ v # pre) rp' False
         = Inl (TypeError ''Arguments to path.resolve must be strings'')" for rp'
    by simp
  show ?case
  proof (cases a)
    case (JStr s)
    with Cons.prems have "\<not> isAbsolute s" by simp
    then have "(charAt s 0 = ''/'') = False" by (simp add: isAbsolute_def)
    with JStr IH show ?thesis by simp
  qed simp_all
qed

section \<open>Properties of the path splitter\<close>

lemma concat_rev_upt_eq:
  "concat (map (\<lambda>k. if i + k = n then [f k] else []) (rev [0..<Suc m]))
   = (if i \<le> n \<and> n - i \<le> m then [f (n - i)] else [])"
proof (induction m)
  case 0
  then show ?case by auto
next
  case (Suc m)
  have "concat (map (\<lambda>k. if i + k = n then [f k] else []) (rev [0..<Suc (Suc m)]))
        = (if i + Suc m = n then [f (Suc m)] else [])
          @ concat (map (\<lambda>k. if i + k = n then [f k] else []) (rev [0..<Suc m]))"
    by simp
  also have "\<dots> = (if i \<le> n \<and> n - i \<le> Suc m then [f (n - i)] else [])"
    unfolding Suc.IH by auto
  finally show ?case .
qed

lemma takeWhile_all_iff: "length (takeWhile P xs) = length xs \<longleftrightarrow> (\<forall>x\<in>set xs. P x)"
  by (induction xs) (auto simp: le_Suc_eq dest: length_takeWhile_le [THEN le_trans])

lemma takeWhile_ge_iff: "length xs \<le> length (takeWhile P xs) \<longleftrightarrow> (\<forall>x\<in>set xs. P x)"
  using takeWhile_all_iff [of P xs] length_takeWhile_le [of P xs] by auto

text \<open>What follows the third group: \<open>(?:[\/]*)$\<close>.\<close>

lemma matches_slashes_Eol:
  "matches s (Seq (Quant (OneOf ''/'') 0 None True) Eol) (i, c)
   = (if i \<le> length s \<and> slashes (drop i s) then [(length s, c)] else [])"
proof -
  let ?run = "length (takeWhile (in_cset (OneOf ''/'')) (drop i s))"
  have "matches s (Seq (Quant (OneOf ''/'') 0 None True) Eol) (i, c)
        = concat (map (\<lambda>k. if i + k = length s then [(i + k, c)] else []) (rev [0..<Suc ?run]))"
    by (simp add: Let_def comp_def rev_map del: upt_Suc)
  also have "\<dots> = concat (map (\<lambda>k. if i + k = length s then [(length s, c)] else []) (rev [0..<Suc ?run]))"
    by (intro arg_cong [where f = concat] map_cong) auto
  also have "\<dots> = (if i \<le> length s \<and> length s - i \<le> ?run then [(length s, c)] else [])"
    by (rule concat_rev_upt_eq)
  also have "\<dots> = (if i \<le> length s \<and> slashes (drop i s) then [(length s, c)] else [])"
    using takeWhile_ge_iff [of "drop i s" "in_cset (OneOf ''/'')"]
    by (auto simp: slashes_def)
  finally show ?thesis .
qed

lemma splitPathRe_eq:
  "splitPathRe = Seq Bol (Seq (Group 1 (Alt (Quant (OneOf ''/'') 0 (Some 1) True) Empty))
                         (Seq (Group 2 (Quant AnyChar 0 None False)) reTail))"
  by (simp add: splitPathRe_def reTail_def reX_def reG4_def)

lemma in_cset_simps:
  "in_cset (OneOf [a]) = (\<lambda>c. c = a)"
  "in_cset (NoneOf [a]) = (\<lambda>c. c \<noteq> a)"
  "in_cset (NoneOf [a, b]) = (\<lambda>c. c \<noteq> a \<and> c \<noteq> b)"
  "in_cset AnyChar = (\<lambda>c. True)"
  by (rule ext, simp)+

lemma matches_reX: "matches s reX (j, c) = map (\<lambda>x. (j + x, c)) (xoffs (drop j s))"
  by (simp add: reX_def xoffs_def in_cset_simps Let_def rev_map del: upt_Suc)

lemma matches_reG4:
  "matches s reG4 (i, c) = map (\<lambda>e. (i + e, c[4 := Some (take e (drop i s))])) (eoffs (drop i s))"
proof (cases "i < length s")
  case True
  then have d: "drop i s = s ! i # drop (Suc i) s" by (simp add: Cons_nth_drop_Suc)
  show ?thesis
    using True unfolding reG4_def eoffs_def
    by (simp add: in_cset_simps Let_def rev_map comp_def d del: upt_Suc)
next
  case False
  then show ?thesis
    by (simp add: reG4_def eoffs_def)
qed

lemma matches_G3:
  "matches s (Group 3 (Seq reX reG4)) (j, c)
   = map (\<lambda>p. (j + fst p + snd p,
                c[4 := Some (take (snd p) (drop (j + fst p) s)),
                  3 := Some (take (fst p + snd p) (drop j s))]))
         (tail_cands (drop j s))"
  by (simp add: matches_reX matches_reG4 tail_cands_def map_concat comp_def ac_simps)

lemma concat_map_if: "concat (map (\<lambda>y. if P y then [f y] else []) ys) = map f (filter P ys)"
  by (induction ys) auto

lemma matches_reTail:
  "matches s reTail (j, c)
   = map (\<lambda>p. (length s,
                c[4 := Some (take (snd p) (drop (j + fst p) s)),
                  3 := Some (take (fst p + snd p) (drop j s))]))
         (filter (\<lambda>p. j + fst p + snd p \<le> length s \<and> slashes (drop (j + fst p + snd p) s))
                 (tail_cands (drop j s)))"
proof -
  have "matches s reTail (j, c)
        = concat (map (matches s (Seq (Quant (OneOf ''/'') 0 None True) Eol))
                      (matches s (Group 3 (Seq reX reG4)) (j, c)))"
    unfolding reTail_def by (rule matches.simps(6))
  then show ?thesis
    by (simp only: matches_G3 map_map comp_def matches_slashes_Eol concat_map_if)
qed

lemma takeWhile_append_stop:
  "ys = [] \<or> \<not> P (hd ys) \<Longrightarrow> takeWhile P (xs @ ys) = takeWhile P xs"
  by (induction xs) (auto simp: takeWhile_eq_Nil_iff)

lemma takeWhile_id: "\<forall>x\<in>set xs. P x \<Longrightarrow> takeWhile P xs = xs"
  by (induction xs) auto

lemma noslash_id: "CHR ''/'' \<notin> set b \<Longrightarrow> takeWhile (\<lambda>c. c \<noteq> CHR ''/'') b = b"
  by (induction b) auto

lemma takeWhile_weaker:
  "(\<And>x. P x \<Longrightarrow> Q x) \<Longrightarrow> takeWhile P (takeWhile Q xs) = takeWhile P xs"
  by (induction xs) auto

lemma xoffs_component:
  assumes "CHR ''/'' \<notin> set b" and "rest = [] \<or> hd rest = CHR ''/''"
  shows "xoffs (b @ rest) = xoffs b"
proof -
  have 1: "takeWhile (\<lambda>c. c \<noteq> CHR ''/'') (b @ rest) = b"
    using assms takeWhile_append_stop [of rest "\<lambda>c. c \<noteq> CHR ''/''" b]
    by (simp add: noslash_id)
  have 2: "takeWhile (\<lambda>c. c \<noteq> CHR ''/'') b = b"
    using assms by (simp add: noslash_id)
  have "takeWhile (\<lambda>c. c = CHR ''.'') (b @ rest)
        = takeWhile (\<lambda>c. c = CHR ''.'') (takeWhile (\<lambda>c. c \<noteq> CHR ''/'') (b @ rest))"
    by (rule takeWhile_weaker [symmetric]) simp
  then have 3: "takeWhile (\<lambda>c. c = CHR ''.'') (b @ rest) = takeWhile (\<lambda>c. c = CHR ''.'') b"
    by (simp only: 1)
  show ?thesis unfolding xoffs_def 1 2 3 ..
qed

lemma set_xoffs: "x \<in> set (xoffs b) \<Longrightarrow> x \<le> length (takeWhile (\<lambda>c. c \<noteq> CHR ''/'') b)"
proof -
  have "length (takeWhile (\<lambda>c. c = CHR ''.'') b) \<le> length (takeWhile (\<lambda>c. c \<noteq> CHR ''/'') b)"
    using takeWhile_weaker [of "\<lambda>c. c = CHR ''.''" "\<lambda>c. c \<noteq> CHR ''/''" b]
      length_takeWhile_le [of "\<lambda>c. c = CHR ''.''" "takeWhile (\<lambda>c. c \<noteq> CHR ''/'') b"]
    by simp
  then show "x \<in> set (xoffs b) \<Longrightarrow> x \<le> length (takeWhile (\<lambda>c. c \<noteq> CHR ''/'') b)"
    unfolding xoffs_def by auto
qed

lemma set_xoffs_le: "CHR ''/'' \<notin> set b \<Longrightarrow> x \<in> set (xoffs b) \<Longrightarrow> x \<le> length b"
  using set_xoffs [of x b] by (simp add: noslash_id)

lemma filter_rev_upt_eq:
  "filter (\<lambda>k. x + Suc k = n) (rev [0..<Suc m]) = (if x < n \<and> n - Suc x \<le> m then [n - Suc x] else [])"
proof (induction m)
  case 0
  then show ?case by auto
next
  case (Suc m)
  have "filter (\<lambda>k. x + Suc k = n) (rev [0..<Suc (Suc m)])
        = (if x + Suc (Suc m) = n then [Suc m] else []) @ filter (\<lambda>k. x + Suc k = n) (rev [0..<Suc m])"
    by simp
  also have "\<dots> = (if x < n \<and> n - Suc x \<le> Suc m then [n - Suc x] else [])"
    unfolding Suc.IH by auto
  finally show ?case .
qed

lemma no_dot_iff:
  assumes "CHR ''/'' \<notin> set v"
  shows "length v \<le> length (takeWhile (\<lambda>c. c \<noteq> CHR ''.'' \<and> c \<noteq> CHR ''/'') v) \<longleftrightarrow> CHR ''.'' \<notin> set v"
  using assms takeWhile_ge_iff [of v "\<lambda>c. c \<noteq> CHR ''.'' \<and> c \<noteq> CHR ''/''"] by auto

text \<open>The ends of the fourth group from offset \<open>x\<close> that reach the end of the component.\<close>

lemma filter_eoffs:
  assumes b: "CHR ''/'' \<notin> set b" and rest: "rest = [] \<or> hd rest = CHR ''/''" and x: "x \<le> length b"
  shows "filter (\<lambda>e. x + e = length b) (eoffs (drop x (b @ rest))) = (if acc b x then [length b - x] else [])"
proof (cases "x < length b")
  case False
  with x have "x = length b" by simp
  moreover have "eoffs rest = [0]" using rest by (cases rest) (auto simp: eoffs_def)
  ultimately show ?thesis by (simp add: acc_def)
next
  case True
  let ?v = "drop (Suc x) b"
  let ?m = "length (takeWhile (\<lambda>c. c \<noteq> CHR ''.'' \<and> c \<noteq> CHR ''/'') ?v)"
  have d: "drop x (b @ rest) = b ! x # (?v @ rest)"
    using True by (simp add: Cons_nth_drop_Suc)
  have tw: "takeWhile (\<lambda>c. c \<noteq> CHR ''.'' \<and> c \<noteq> CHR ''/'') (?v @ rest)
            = takeWhile (\<lambda>c. c \<noteq> CHR ''.'' \<and> c \<noteq> CHR ''/'') ?v"
    using rest by (intro takeWhile_append_stop) auto
  have v: "CHR ''/'' \<notin> set ?v" using b by (meson in_set_dropD)
  have nd: "length b - Suc x \<le> ?m \<longleftrightarrow> CHR ''.'' \<notin> set ?v"
    using no_dot_iff [OF v] by simp
  show ?thesis
  proof (cases "b ! x = CHR ''.''")
    case dot: True
    have "eoffs (drop x (b @ rest)) = map Suc (rev [0..<Suc ?m]) @ [0]"
      unfolding d using dot by (simp add: eoffs_def tw del: upt_Suc)
    then have "filter (\<lambda>e. x + e = length b) (eoffs (drop x (b @ rest)))
          = map Suc (filter (\<lambda>k. x + Suc k = length b) (rev [0..<Suc ?m]))"
      using True by (simp add: filter_map comp_def del: upt_Suc)
    also have "\<dots> = (if CHR ''.'' \<notin> set ?v then [length b - x] else [])"
      unfolding filter_rev_upt_eq using True nd by (simp add: Suc_diff_Suc)
    finally show ?thesis using True dot by (simp add: acc_def)
  next
    case nodot: False
    have "eoffs (drop x (b @ rest)) = [0]"
      unfolding d using nodot by (simp add: eoffs_def)
    then show ?thesis using True nodot by (simp add: acc_def)
  qed
qed

lemma set_eoffs_le:
  assumes b: "CHR ''/'' \<notin> set b" and rest: "rest = [] \<or> hd rest = CHR ''/''" and x: "x \<le> length b"
    and e: "e \<in> set (eoffs (drop x (b @ rest)))"
  shows "x + e \<le> length b"
proof (cases "x < length b")
  case False
  with x have "x = length b" by simp
  moreover have "eoffs rest = [0]" using rest by (cases rest) (auto simp: eoffs_def)
  ultimately show ?thesis using e by simp
next
  case True
  let ?v = "drop (Suc x) b"
  let ?m = "length (takeWhile (\<lambda>c. c \<noteq> CHR ''.'' \<and> c \<noteq> CHR ''/'') ?v)"
  have d: "drop x (b @ rest) = b ! x # (?v @ rest)"
    using True by (simp add: Cons_nth_drop_Suc)
  have tw: "takeWhile (\<lambda>c. c \<noteq> CHR ''.'' \<and> c \<noteq> CHR ''/'') (?v @ rest)
            = takeWhile (\<lambda>c. c \<noteq> CHR ''.'' \<and> c \<noteq> CHR ''/'') ?v"
    using rest by (intro takeWhile_append_stop) auto
  have "?m \<le> length ?v" by (rule length_takeWhile_le)
  then have m: "?m \<le> length b - Suc x" by simp
  have eo: "eoffs (drop x (b @ rest)) = (if b ! x = CHR ''.'' then map Suc (rev [0..<Suc ?m]) else []) @ [0]"
    unfolding d by (simp add: eoffs_def tw del: upt_Suc)
  have "e \<le> Suc ?m"
    using e unfolding eo by (cases "b ! x = CHR ''.''") (auto simp del: upt_Suc)
  then show ?thesis using m True by auto
qed

lemma slashes_drop_component:
  assumes "CHR ''/'' \<notin> set b" and "n \<le> length b"
  shows "slashes (drop n (b @ rest)) \<longleftrightarrow> n = length b \<and> slashes rest"
proof (cases "n < length b")
  case True
  then have "b ! n \<in> set (drop n (b @ rest))"
    by (metis Cons_nth_drop_Suc drop_append list.set_intros(1) Un_iff set_append)
  moreover have "b ! n \<noteq> CHR ''/''" using True assms(1) by (metis nth_mem)
  ultimately have "\<not> slashes (drop n (b @ rest))" unfolding slashes_def by blast
  with True show ?thesis by simp
next
  case False
  with assms(2) show ?thesis by simp
qed

lemma filter_tail_cands:
  assumes b: "CHR ''/'' \<notin> set b" and rest: "rest = [] \<or> hd rest = CHR ''/''"
  shows "filter (\<lambda>p. slashes (drop (fst p + snd p) (b @ rest))) (tail_cands (b @ rest))
         = (if slashes rest then map (\<lambda>x. (x, length b - x)) (filter (acc b) (xoffs b)) else [])"
proof -
  let ?P = "\<lambda>p. slashes (drop (fst p + snd p) (b @ rest))"
  have inner: "filter ?P (map (Pair x) (eoffs (drop x (b @ rest))))
        = (if slashes rest \<and> acc b x then [(x, length b - x)] else [])"
    if x: "x \<in> set (xoffs b)" for x
  proof -
    have xle: "x \<le> length b" using set_xoffs_le [OF b x] .
    have "filter ?P (map (Pair x) (eoffs (drop x (b @ rest))))
          = map (Pair x) (filter (\<lambda>e. slashes (drop (x + e) (b @ rest))) (eoffs (drop x (b @ rest))))"
      by (simp add: filter_map comp_def)
    also have "filter (\<lambda>e. slashes (drop (x + e) (b @ rest))) (eoffs (drop x (b @ rest)))
          = filter (\<lambda>e. slashes rest \<and> x + e = length b) (eoffs (drop x (b @ rest)))"
    proof (rule filter_cong [OF refl])
      fix e assume "e \<in> set (eoffs (drop x (b @ rest)))"
      then have "x + e \<le> length b" using set_eoffs_le [OF b rest xle] by blast
      then show "slashes (drop (x + e) (b @ rest)) \<longleftrightarrow> slashes rest \<and> x + e = length b"
        using slashes_drop_component [OF b] by blast
    qed
    also have "\<dots> = (if slashes rest then filter (\<lambda>e. x + e = length b) (eoffs (drop x (b @ rest))) else [])"
      by simp
    also have "\<dots> = (if slashes rest \<and> acc b x then [length b - x] else [])"
      using filter_eoffs [OF b rest xle] by simp
    finally show ?thesis by simp
  qed
  have "filter ?P (tail_cands (b @ rest))
        = concat (map (\<lambda>x. filter ?P (map (Pair x) (eoffs (drop x (b @ rest))))) (xoffs b))"
    unfolding tail_cands_def xoffs_component [OF b rest] by (simp add: filter_concat comp_def)
  also have "\<dots> = concat (map (\<lambda>x. if slashes rest \<and> acc b x then [(x, length b - x)] else []) (xoffs b))"
    using inner by (intro arg_cong [where f = concat] map_cong) auto
  also have "\<dots> = map (\<lambda>x. (x, length b - x)) (filter (\<lambda>x. slashes rest \<and> acc b x) (xoffs b))"
    by (rule concat_map_if)
  finally show ?thesis by simp
qed

lemma set_filter_acc: "x \<in> set (filter (acc b) xs) \<Longrightarrow> x \<le> length b"
  by (auto simp: acc_def)

lemma set_tail_cands:
  assumes b: "CHR ''/'' \<notin> set b" and rest: "rest = [] \<or> hd rest = CHR ''/''"
    and p: "p \<in> set (tail_cands (b @ rest))"
  shows "fst p + snd p \<le> length b"
proof -
  from p obtain x e where x: "x \<in> set (xoffs b)" and e: "e \<in> set (eoffs (drop x (b @ rest)))"
    and pe: "p = (x, e)"
    unfolding tail_cands_def xoffs_component [OF b rest] by auto
  have "x \<le> length b" using set_xoffs_le [OF b x] .
  then show ?thesis using set_eoffs_le [OF b rest _ e] pe by simp
qed

text \<open>The matches of everything after the second group, started where a final component begins.\<close>

lemma matches_reTail_component:
  assumes j: "j \<le> length s" and u: "drop j s = b @ rest"
    and b: "CHR ''/'' \<notin> set b" and rest: "rest = [] \<or> hd rest = CHR ''/''"
  shows "matches s reTail (j, c)
         = (if slashes rest
            then map (\<lambda>x. (length s, c[4 := Some (drop x b), 3 := Some b])) (filter (acc b) (xoffs b))
            else [])"
proof -
  let ?f = "\<lambda>p. (length s, c[4 := Some (take (snd p) (drop (j + fst p) s)),
                               3 := Some (take (fst p + snd p) (drop j s))])"
  have len: "length s = j + length (b @ rest)"
    using j u by (metis length_drop le_add_diff_inverse)
  have dr: "drop (j + n) s = drop n (b @ rest)" for n
    using u by (metis drop_drop add.commute)
  have "filter (\<lambda>p. j + fst p + snd p \<le> length s \<and> slashes (drop (j + fst p + snd p) s))
               (tail_cands (drop j s))
        = filter (\<lambda>p. slashes (drop (fst p + snd p) (b @ rest))) (tail_cands (b @ rest))"
    unfolding u
  proof (rule filter_cong [OF refl])
    fix p assume "p \<in> set (tail_cands (b @ rest))"
    then have "fst p + snd p \<le> length b" by (rule set_tail_cands [OF b rest])
    then have "j + fst p + snd p \<le> length s" using len by simp
    then show "(j + fst p + snd p \<le> length s \<and> slashes (drop (j + fst p + snd p) s))
         = slashes (drop (fst p + snd p) (b @ rest))"
      using dr [of "fst p + snd p"] by (simp add: add.assoc)
  qed
  then have m: "matches s reTail (j, c)
      = map ?f (if slashes rest then map (\<lambda>x. (x, length b - x)) (filter (acc b) (xoffs b)) else [])"
    unfolding matches_reTail filter_tail_cands [OF b rest] by simp
  show ?thesis
  proof (cases "slashes rest")
    case False
    with m show ?thesis by simp
  next
    case True
    have "map ?f (map (\<lambda>x. (x, length b - x)) (filter (acc b) (xoffs b)))
          = map (\<lambda>x. (length s, c[4 := Some (drop x b), 3 := Some b])) (filter (acc b) (xoffs b))"
      unfolding map_map
    proof (rule map_cong [OF refl])
      fix x assume "x \<in> set (filter (acc b) (xoffs b))"
      then have x: "x \<le> length b" by (rule set_filter_acc)
      have "take (length b - x) (drop (j + x) s) = drop x b"
        unfolding dr using x by simp
      moreover have "take (x + (length b - x)) (drop j s) = b"
        unfolding u using x by simp
      ultimately show "(?f \<circ> (\<lambda>x. (x, length b - x))) x
                       = (length s, c[4 := Some (drop x b), 3 := Some b])"
        by simp
    qed
    with m True show ?thesis by simp
  qed
qed

lemma hd_filter_first:
  assumes "xs = ys @ a # zs" and "P a" and "\<forall>y\<in>set ys. P y \<longrightarrow> y = a"
  shows "filter P xs \<noteq> [] \<and> hd (filter P xs) = a"
proof -
  have f: "filter P xs = filter P ys @ a # filter P zs" using assms(1,2) by simp
  show ?thesis
  proof (cases "filter P ys")
    case Nil
    with f show ?thesis by simp
  next
    case (Cons y ys')
    then have "y \<in> set (filter P ys)" by simp
    then have "y = a" using assms(3) by simp
    with f Cons show ?thesis by simp
  qed
qed

lemma xoffs_split:
  assumes b: "CHR ''/'' \<notin> set b" and a: "1 \<le> a" "a \<le> length b"
  shows "xoffs b = (rev [1..<Suc (min (length (takeWhile (\<lambda>c. c = CHR ''.'') b)) 2)] @ [1..<a])
                   @ a # ([Suc a..<Suc (length b)] @ [0])"
proof -
  have "[1..<Suc (length b)] = [1..<a] @ [a..<Suc (length b)]"
    using a upt_add_eq_append [of 1 a "Suc (length b) - a"] by simp
  moreover have "[a..<Suc (length b)] = a # [Suc a..<Suc (length b)]"
    using a by (simp add: upt_conv_Cons)
  ultimately have "[1..<Suc (length b)] = [1..<a] @ a # [Suc a..<Suc (length b)]"
    by simp
  then show ?thesis
    unfolding xoffs_def noslash_id [OF b] by simp
qed

lemma set_dots_part:
  "y \<in> set (rev [1..<Suc (min (length (takeWhile (\<lambda>c. c = CHR ''.'') b)) 2)])
   \<longleftrightarrow> 1 \<le> y \<and> y \<le> 2 \<and> y \<le> length (takeWhile (\<lambda>c. c = CHR ''.'') b)"
  by auto

lemma two_dots:
  assumes "length b = 2" and "2 \<le> length (takeWhile (\<lambda>c. c = CHR ''.'') b)"
  shows "b = ''..''"
proof -
  from assms(1) obtain c d where b: "b = [c, d]"
    by (metis length_0_conv length_Suc_conv numeral_2_eq_2)
  with assms(2) show ?thesis by (auto split: if_splits)
qed

lemma first_acc:
  assumes b: "CHR ''/'' \<notin> set b"
  shows "filter (acc b) (xoffs b) \<noteq> [] \<and> drop (hd (filter (acc b) (xoffs b))) b = spec_ext b"
proof -
  consider (empty) "b = []" | (dd) "b = ''..''"
    | (nodot) "b \<noteq> []" "CHR ''.'' \<notin> set (drop 1 b)"
    | (dot) "b \<noteq> ''..''" "CHR ''.'' \<in> set (drop 1 b)"
    by fastforce
  then show ?thesis
  proof cases
    case empty
    then show ?thesis by (simp add: xoffs_def acc_def spec_ext_def)
  next
    case dd
    have "xoffs ''..'' = [2, 1, 1, 2, 0]" by (simp add: xoffs_def)
    then show ?thesis unfolding dd by (simp add: acc_def spec_ext_def)
  next
    case nodot
    let ?a = "length b"
    have a: "1 \<le> ?a" "?a \<le> length b" using nodot(1) by (simp_all add: Suc_le_eq)
    have "\<forall>y\<in>set (rev [1..<Suc (min (length (takeWhile (\<lambda>c. c = CHR ''.'') b)) 2)] @ [1..<?a]).
            acc b y \<longrightarrow> y = ?a"
    proof (intro ballI impI)
      fix y assume y: "y \<in> set (rev [1..<Suc (min (length (takeWhile (\<lambda>c. c = CHR ''.'') b)) 2)] @ [1..<?a])"
        and ac: "acc b y"
      from y have y1: "1 \<le> y" by auto
      show "y = ?a"
      proof (rule ccontr)
        assume "y \<noteq> ?a"
        with ac have "y < length b" "b ! y = CHR ''.''" by (auto simp: acc_def)
        with y1 have "drop 1 b ! (y - 1) = CHR ''.''" "y - 1 < length (drop 1 b)"
          by simp_all
        then have "CHR ''.'' \<in> set (drop 1 b)"
          by (metis nth_mem)
        with nodot(2) show False by simp
      qed
    qed
    moreover have "acc b ?a" by (simp add: acc_def)
    ultimately have "filter (acc b) (xoffs b) \<noteq> [] \<and> hd (filter (acc b) (xoffs b)) = ?a"
      using hd_filter_first [OF xoffs_split [OF b a]] by blast
    then show ?thesis using nodot by (simp add: spec_ext_def)
  next
    case dot
    from dot(2) obtain p t where dr: "drop 1 b = p @ CHR ''.'' # t" and t: "CHR ''.'' \<notin> set t"
      by (meson split_list_last)
    from dot(2) have ne: "b \<noteq> []" by auto
    have "b = (hd b # p) @ CHR ''.'' # t"
      using dr ne by (cases b) simp_all
    then obtain pre where bb: "b = pre @ CHR ''.'' # t" and pre: "pre \<noteq> []"
      by blast
    let ?a = "length pre"
    have a: "1 \<le> ?a" "?a \<le> length b"
      using pre unfolding bb by (simp_all add: Suc_le_eq)
    have acc_iff: "acc b y \<longleftrightarrow> y = length b \<or> y = ?a" for y
    proof -
      have "y < length b \<and> b ! y = CHR ''.'' \<and> CHR ''.'' \<notin> set (drop (Suc y) b) \<longleftrightarrow> y = ?a"
      proof
        assume h: "y < length b \<and> b ! y = CHR ''.'' \<and> CHR ''.'' \<notin> set (drop (Suc y) b)"
        show "y = ?a"
        proof (rule ccontr)
          assume "y \<noteq> ?a"
          then consider "y < ?a" | "?a < y" by linarith
          then show False
          proof cases
            case 1
            then have "CHR ''.'' \<in> set (drop (Suc y) b)"
              unfolding bb by simp
            with h show False by simp
          next
            case 2
            then have "b ! y = t ! (y - Suc ?a)"
              unfolding bb by (simp add: nth_append nth_Cons')
            moreover have "y - Suc ?a < length t" using 2 h unfolding bb by auto
            ultimately have "b ! y \<in> set t" by (metis nth_mem)
            with h t show False by simp
          qed
        qed
      next
        assume "y = ?a"
        then show "y < length b \<and> b ! y = CHR ''.'' \<and> CHR ''.'' \<notin> set (drop (Suc y) b)"
          using t unfolding bb by simp
      qed
      then show ?thesis unfolding acc_def by blast
    qed
    have "\<forall>y\<in>set (rev [1..<Suc (min (length (takeWhile (\<lambda>c. c = CHR ''.'') b)) 2)] @ [1..<?a]).
            acc b y \<longrightarrow> y = ?a"
    proof (intro ballI impI)
      fix y assume y: "y \<in> set (rev [1..<Suc (min (length (takeWhile (\<lambda>c. c = CHR ''.'') b)) 2)] @ [1..<?a])"
        and ac: "acc b y"
      show "y = ?a"
      proof (rule ccontr)
        assume n: "y \<noteq> ?a"
        with ac acc_iff have yb: "y = length b" by simp
        have lb: "?a < length b" unfolding bb by simp
        from y yb lb have "y \<in> set (rev [1..<Suc (min (length (takeWhile (\<lambda>c. c = CHR ''.'') b)) 2)])"
          by auto
        then have "y \<le> 2" "y \<le> length (takeWhile (\<lambda>c. c = CHR ''.'') b)"
          unfolding set_dots_part by simp_all
        moreover have "2 \<le> length b" using pre unfolding bb by (cases pre) simp_all
        ultimately have "length b = 2" "2 \<le> length (takeWhile (\<lambda>c. c = CHR ''.'') b)"
          using yb by simp_all
        then have "b = ''..''" by (rule two_dots)
        with dot(1) show False by simp
      qed
    qed
    moreover have "acc b ?a" using acc_iff by simp
    ultimately have "filter (acc b) (xoffs b) \<noteq> [] \<and> hd (filter (acc b) (xoffs b)) = ?a"
      using hd_filter_first [OF xoffs_split [OF b a]] by blast
    moreover have "spec_ext b = CHR ''.'' # t"
    proof -
      have "rev b = rev t @ CHR ''.'' # rev pre" unfolding bb by simp
      moreover have "takeWhile (\<lambda>c. c \<noteq> CHR ''.'') (rev t @ CHR ''.'' # rev pre) = rev t"
      proof -
        have "takeWhile (\<lambda>c. c \<noteq> CHR ''.'') (rev t @ CHR ''.'' # rev pre)
              = rev t @ takeWhile (\<lambda>c. c \<noteq> CHR ''.'') (CHR ''.'' # rev pre)"
          by (rule takeWhile_append2) (use t in auto)
        then show ?thesis by simp
      qed
      ultimately show ?thesis using dot by (simp add: spec_ext_def)
    qed
    ultimately show ?thesis unfolding bb by simp
  qed
qed

lemma rev_same: "\<forall>y\<in>set xs. y = c \<Longrightarrow> rev xs = xs"
proof -
  assume "\<forall>y\<in>set xs. y = c"
  then have "replicate (length xs) c = xs" by (rule replicate_length_same)
  then have "rev xs = rev (replicate (length xs) c)" by simp
  also have "\<dots> = replicate (length xs) c" by (rule rev_replicate)
  also have "\<dots> = xs" by fact
  finally show ?thesis .
qed

lemma path_decomp: "p = dir_part p @ final_component p @ trailing_slashes p"
proof -
  let ?tw = "takeWhile (\<lambda>c. c = CHR ''/'') (rev p)"
  let ?dw = "dropWhile (\<lambda>c. c = CHR ''/'') (rev p)"
  let ?b = "takeWhile (\<lambda>c. c \<noteq> CHR ''/'') ?dw"
  let ?d = "dropWhile (\<lambda>c. c \<noteq> CHR ''/'') ?dw"
  have "\<forall>y\<in>set ?tw. y = CHR ''/''" by (meson set_takeWhileD)
  then have t: "rev ?tw = ?tw" by (rule rev_same)
  have 1: "rev p = ?tw @ ?dw" by (rule takeWhile_dropWhile_id [symmetric])
  have 2: "?dw = ?b @ ?d" by (rule takeWhile_dropWhile_id [symmetric])
  have "rev (rev p) = rev (?tw @ (?b @ ?d))" using 1 2 by metis
  then have "p = rev ?d @ rev ?b @ rev ?tw" by (simp only: rev_rev_ident rev_append append_assoc)
  then show ?thesis
    unfolding trailing_slashes_def final_component_def dir_part_def t .
qed

lemma slashes_trailing: "slashes (trailing_slashes p)"
  unfolding slashes_def trailing_slashes_def by (auto dest: set_takeWhileD)

lemma trailing_start: "trailing_slashes p = [] \<or> hd (trailing_slashes p) = CHR ''/''"
  using slashes_trailing [of p] unfolding slashes_def by (cases "trailing_slashes p") auto

lemma final_component_noslash: "CHR ''/'' \<notin> set (final_component p)"
  unfolding final_component_def by (auto dest: set_takeWhileD)

lemma dir_part_last:
  assumes "dir_part p \<noteq> []"
  shows "last (dir_part p) = CHR ''/'' \<and> final_component p \<noteq> []"
proof -
  define dw where "dw = dropWhile (\<lambda>c. c = CHR ''/'') (rev p)"
  define dd where "dd = dropWhile (\<lambda>c. c \<noteq> CHR ''/'') dw"
  have dp: "dir_part p = rev dd" and fc: "final_component p = rev (takeWhile (\<lambda>c. c \<noteq> CHR ''/'') dw)"
    unfolding dir_part_def final_component_def dd_def dw_def by (rule refl)+
  from assms have dd: "dd \<noteq> []" unfolding dp by simp
  then have "\<not> hd dd \<noteq> CHR ''/''" unfolding dd_def by (rule hd_dropWhile)
  then have hd: "hd dd = CHR ''/''" by blast
  have 1: "last (dir_part p) = CHR ''/''"
    unfolding dp using dd hd by (simp only: last_rev)
  have dw: "dw \<noteq> []"
  proof
    assume "dw = []"
    then have "dd = []" unfolding dd_def by simp
    with dd show False ..
  qed
  then have "\<not> hd dw = CHR ''/''" unfolding dw_def by (rule hd_dropWhile)
  then have "takeWhile (\<lambda>c. c \<noteq> CHR ''/'') dw \<noteq> []"
    using dw by (simp only: takeWhile_eq_Nil_iff) blast
  then have 2: "final_component p \<noteq> []" unfolding fc by (simp only: rev_is_Nil_conv not_False_eq_True)
  from 1 2 show ?thesis ..
qed

text \<open>Nothing after the second group matches from inside the directory part.\<close>

lemma matches_reTail_inside:
  assumes j: "j \<le> length s" and u: "drop j s = r" and k: "k < length (dir_part r)"
  shows "matches s reTail (j + k, c) = []"
proof -
  let ?d = "dir_part r" and ?b = "final_component r" and ?t = "trailing_slashes r"
  let ?v = "drop k ?d"
  have r: "r = ?d @ ?b @ ?t" by (rule path_decomp)
  from k have d: "?d \<noteq> []" by auto
  then have lastd: "last ?d = CHR ''/''" and bne: "?b \<noteq> []" using dir_part_last by blast+
  have v: "?v \<noteq> []" "last ?v = CHR ''/''" using k lastd by simp_all
  have uk: "drop (j + k) s = ?v @ ?b @ ?t"
  proof -
    have "drop (j + k) s = drop k r" using u by (metis drop_drop add.commute)
    also have "\<dots> = drop k (?d @ ?b @ ?t)" using r by simp
    also have "\<dots> = ?v @ ?b @ ?t" using k by simp
    finally show ?thesis .
  qed
  define b' where "b' = takeWhile (\<lambda>c. c \<noteq> CHR ''/'') (drop (j + k) s)"
  define rest' where "rest' = dropWhile (\<lambda>c. c \<noteq> CHR ''/'') (drop (j + k) s)"
  have dec: "drop (j + k) s = b' @ rest'" unfolding b'_def rest'_def by simp
  have b': "CHR ''/'' \<notin> set b'" unfolding b'_def by (auto dest: set_takeWhileD)
  have rest': "rest' = [] \<or> hd rest' = CHR ''/''"
    unfolding rest'_def using hd_dropWhile [of "\<lambda>c. c \<noteq> CHR ''/''" "drop (j + k) s"] by auto
  have "CHR ''/'' \<in> set ?v" using v by (metis last_in_set)
  then have "rest' = dropWhile (\<lambda>c. c \<noteq> CHR ''/'') ?v @ ?b @ ?t"
    unfolding rest'_def uk by (intro dropWhile_append1 [where x = "CHR ''/''"]) auto
  then have "hd ?b \<in> set rest'" using bne by simp
  moreover have "hd ?b \<noteq> CHR ''/''" using bne final_component_noslash [of r]
    by (metis hd_in_set)
  ultimately have "\<not> slashes rest'" unfolding slashes_def by blast
  moreover have "j + k \<le> length s"
  proof -
    have "length r = length s - j" using u by auto
    moreover have "length ?d \<le> length r" using r by (metis length_append le_add1)
    ultimately show ?thesis using k j by linarith
  qed
  ultimately show ?thesis
    using matches_reTail_component [OF _ dec b' rest'] by simp
qed

text \<open>The first match after the second group, started at the final component.\<close>

lemma matches_reTail_final:
  assumes j: "j \<le> length s" and u: "drop j s = r"
  shows "\<exists>ms. matches s reTail (j + length (dir_part r), c)
           = (length s, c[4 := Some (spec_ext (final_component r)), 3 := Some (final_component r)]) # ms"
proof -
  let ?d = "dir_part r" and ?b = "final_component r" and ?t = "trailing_slashes r"
  have r: "r = ?d @ ?b @ ?t" by (rule path_decomp)
  have uk: "drop (j + length ?d) s = ?b @ ?t"
  proof -
    have "drop (j + length ?d) s = drop (length ?d) r" using u by (metis drop_drop add.commute)
    also have "\<dots> = drop (length ?d) (?d @ ?b @ ?t)" using r by simp
    finally show ?thesis by simp
  qed
  have le: "j + length ?d \<le> length s"
  proof -
    have "length r = length s - j" using u by auto
    moreover have "length ?d \<le> length r" using r by (metis length_append le_add1)
    ultimately show ?thesis using j by linarith
  qed
  have m: "matches s reTail (j + length ?d, c)
        = map (\<lambda>x. (length s, c[4 := Some (drop x ?b), 3 := Some ?b])) (filter (acc ?b) (xoffs ?b))"
    using matches_reTail_component [OF le uk final_component_noslash trailing_start] slashes_trailing
    by simp
  obtain x xs where f: "filter (acc ?b) (xoffs ?b) = x # xs" and x: "drop x ?b = spec_ext ?b"
    using first_acc [OF final_component_noslash, of r]
    by (cases "filter (acc (final_component r)) (xoffs (final_component r))") auto
  show ?thesis unfolding m f using x by simp
qed

lemma concat_map_first:
  assumes "\<forall>k<k0. f k = []" and "k0 \<le> n"
  shows "concat (map f [0..<Suc n]) = f k0 @ concat (map f [Suc k0..<Suc n])"
proof -
  have "[0..<Suc n] = [0..<k0] @ k0 # [Suc k0..<Suc n]"
    using assms(2) upt_add_eq_append [of 0 k0 "Suc n - k0"] by (simp add: upt_conv_Cons)
  moreover have "concat (map f [0..<k0]) = []" using assms(1) by simp
  ultimately show ?thesis by simp
qed

lemma matches_G1:
  "\<exists>ms. matches s (Group 1 (Alt (Quant (OneOf ''/'') 0 (Some 1) True) Empty)) (0, c)
         = (length (root_part s), c[1 := Some (root_part s)]) # ms"
proof (cases "s \<noteq> [] \<and> hd s = CHR ''/''")
  case True
  then obtain t where s: "s = CHR ''/'' # t" by (cases s) auto
  show ?thesis unfolding s by (simp add: root_part_def Let_def)
next
  case False
  then have "takeWhile (in_cset (OneOf ''/'')) s = []"
    by (cases s) auto
  with False show ?thesis by (simp add: root_part_def Let_def)
qed

lemma matches_G2:
  assumes "i \<le> length s"
  shows "matches s (Group 2 (Quant AnyChar 0 None False)) (i, c)
         = map (\<lambda>k. (i + k, c[2 := Some (take k (drop i s))])) [0..<Suc (length s - i)]"
proof -
  have tw: "takeWhile (\<lambda>c. True) (drop i s) = drop i s" by (rule takeWhile_id) simp
  show ?thesis
    by (simp add: in_cset_simps Let_def comp_def tw del: upt_Suc)
qed

lemma matches_G2_tail:
  assumes i: "i \<le> length s"
  shows "\<exists>ms. matches s (Seq (Group 2 (Quant AnyChar 0 None False)) reTail) (i, c)
         = (length s, c[2 := Some (dir_part (drop i s)),
                        4 := Some (spec_ext (final_component (drop i s))),
                        3 := Some (final_component (drop i s))]) # ms"
proof -
  let ?r = "drop i s"
  let ?f = "\<lambda>k. matches s reTail (i + k, c[2 := Some (take k ?r)])"
  have r: "?r = dir_part ?r @ final_component ?r @ trailing_slashes ?r" by (rule path_decomp)
  have "length (dir_part ?r) \<le> length ?r" using r by (metis length_append le_add1)
  then have k0: "length (dir_part ?r) \<le> length s - i" by simp
  have none: "\<forall>k<length (dir_part ?r). ?f k = []"
    using matches_reTail_inside [OF i refl] by blast
  have tk: "take (length (dir_part ?r)) ?r = dir_part ?r"
    using r by (metis append_eq_conv_conj)
  have "matches s (Seq (Group 2 (Quant AnyChar 0 None False)) reTail) (i, c)
        = concat (map ?f [0..<Suc (length s - i)])"
    unfolding matches.simps(6) matches_G2 [OF i] by (simp only: map_map comp_def)
  also have "\<dots> = ?f (length (dir_part ?r)) @ concat (map ?f [Suc (length (dir_part ?r))..<Suc (length s - i)])"
    using none k0 by (rule concat_map_first)
  finally show ?thesis
    using matches_reTail_final [OF i refl, of "c[2 := Some (take (length (dir_part ?r)) ?r)]"]
    unfolding tk by auto
qed

lemma matches_splitPathRe:
  "\<exists>ms. matches s splitPathRe (0, replicate 5 None)
     = (length s, [None, Some (root_part s),
                   Some (dir_part (drop (length (root_part s)) s)),
                   Some (final_component (drop (length (root_part s)) s)),
                   Some (spec_ext (final_component (drop (length (root_part s)) s)))]) # ms"
proof -
  let ?G1 = "Group 1 (Alt (Quant (OneOf ''/'') 0 (Some 1) True) Empty)"
  let ?G2T = "Seq (Group 2 (Quant AnyChar 0 None False)) reTail"
  let ?c0 = "replicate 5 (None :: string option)"
  let ?i = "length (root_part s)"
  obtain ms1 where g1: "matches s ?G1 (0, ?c0) = (?i, ?c0[1 := Some (root_part s)]) # ms1"
    using matches_G1 by blast
  have i: "?i \<le> length s" by (cases s) (auto simp: root_part_def)
  obtain ms2 where g2: "matches s ?G2T (?i, ?c0[1 := Some (root_part s)])
         = (length s, ?c0[1 := Some (root_part s), 2 := Some (dir_part (drop ?i s)),
                        4 := Some (spec_ext (final_component (drop ?i s))),
                        3 := Some (final_component (drop ?i s))]) # ms2"
    using matches_G2_tail [OF i] by blast
  have "matches s splitPathRe (0, ?c0) = concat (map (matches s ?G2T) (matches s ?G1 (0, ?c0)))"
    unfolding splitPathRe_eq by (simp del: matches.simps(4,8))
  also have "\<dots> = matches s ?G2T (?i, ?c0[1 := Some (root_part s)]) @ concat (map (matches s ?G2T) ms1)"
    unfolding g1 by simp
  finally have "matches s splitPathRe (0, ?c0)
     = (length s, ?c0[1 := Some (root_part s), 2 := Some (dir_part (drop ?i s)),
                        4 := Some (spec_ext (final_component (drop ?i s))),
                        3 := Some (final_component (drop ?i s))])
       # (ms2 @ concat (map (matches s ?G2T) ms1))"
    unfolding g2 by simp
  moreover have "?c0 = [None, None, None, None, None]" by (simp add: numeral_eq_Suc)
  ultimately show ?thesis by (simp add: numeral_eq_Suc)
qed

lemma exec_splitPathRe:
  "exec splitPathRe 4 s
   = Some [Some s, Some (root_part s),
           Some (dir_part (drop (length (root_part s)) s)),
           Some (final_component (drop (length (root_part s)) s)),
           Some (spec_ext (final_component (drop (length (root_part s)) s)))]"
proof -
  obtain ms where "matches s splitPathRe (0, replicate (Suc 4) None)
     = (length s, [None, Some (root_part s),
                   Some (dir_part (drop (length (root_part s)) s)),
                   Some (final_component (drop (length (root_part s)) s)),
                   Some (spec_ext (final_component (drop (length (root_part s)) s)))]) # ms"
    using matches_splitPathRe [of s] by auto
  moreover have "[0..<Suc (length s)] = 0 # [Suc 0..<Suc (length s)]"
    by (rule upt_conv_Cons) simp
  ultimately show ?thesis
    unfolding exec_def by simp
qed

lemma posixSplitPath_eq:
  "posixSplitPath s
   = Inr [root_part s,
          dir_part (drop (length (root_part s)) s),
          final_component (drop (length (root_part s)) s),
          spec_ext (final_component (drop (length (root_part s)) s))]"
  by (simp add: posixSplitPath_def exec_splitPathRe)

lemma root_part_iff: "root_part p = (if isAbsolute p then ''/'' else [])"
  by (simp add: root_part_def isAbsolute_iff)

lemma final_component_Cons_slash: "final_component (CHR ''/'' # r) = final_component r"
proof -
  let ?P = "\<lambda>c. c = CHR ''/''"
  let ?Q = "\<lambda>c. c \<noteq> CHR ''/''"
  have "takeWhile ?Q (dropWhile ?P (rev r @ ''/'')) = takeWhile ?Q (dropWhile ?P (rev r))"
  proof (cases "dropWhile ?P (rev r) = []")
    case True
    then have "\<forall>c\<in>set (rev r). ?P c" unfolding dropWhile_eq_Nil_conv .
    then have "\<forall>c\<in>set (rev r @ ''/''). ?P c" by simp
    then have "dropWhile ?P (rev r @ ''/'') = []" unfolding dropWhile_eq_Nil_conv .
    with True show ?thesis by (simp only:)
  next
    case False
    then have "\<not> (\<forall>c\<in>set (rev r). ?P c)" unfolding dropWhile_eq_Nil_conv .
    then obtain x where "x \<in> set (rev r)" "\<not> ?P x" by blast
    then have "dropWhile ?P (rev r @ ''/'') = dropWhile ?P (rev r) @ ''/''"
      by (rule dropWhile_append1)
    moreover have "takeWhile ?Q (dropWhile ?P (rev r) @ ''/'') = takeWhile ?Q (dropWhile ?P (rev r))"
      by (rule takeWhile_append_stop) simp
    ultimately show ?thesis by (simp only:)
  qed
  then show ?thesis unfolding final_component_def by (simp only: rev.simps)
qed

lemma final_component_root: "final_component (drop (length (root_part p)) p) = final_component p"
proof (cases "isAbsolute p")
  case False
  then show ?thesis by (simp add: root_part_iff)
next
  case True
  then obtain r where p: "p = CHR ''/'' # r" by (cases p) (auto simp: isAbsolute_iff)
  have "root_part p = ''/''" unfolding p by (simp add: root_part_def)
  then have "drop (length (root_part p)) p = r" unfolding p by simp
  then show ?thesis unfolding p by (simp only: final_component_Cons_slash)
qed

lemma extname_eq: "extname p = Inr (spec_ext (final_component p))"
  by (simp add: extname_def posixSplitPath_eq final_component_root)

lemma slice_butlast: "slice d 0 (int (length d) - 1) = butlast d"
  by (cases d rule: rev_cases) (simp_all add: slice_def Let_def)

lemma format_parse_eq:
  "format_parse p =
     (let r = drop (length (root_part p)) p;
          d = root_part p @ butlast (dir_part r)
      in Inr ((if d \<noteq> [] then d @ ''/'' else []) @ final_component r))"
  by (simp add: format_parse_def parse_def posixSplitPath_eq format_def Path_object_def
      isObject_def isString_def sep_def slice_butlast Let_def)

section \<open>Properties of relative\<close>

declare trim_start.simps [simp del] trim_end.simps [simp del] sameParts.simps [simp del]

lemma trim_nonempty:
  assumes "\<forall>x\<in>set xs. x \<noteq> []"
  shows "trim xs = xs"
proof (cases xs rule: rev_cases)
  case Nil
  have "trim_start [] 0 = 0" by (subst trim_start.simps) simp
  moreover have "trim_end [] (- 1) = - 1" by (subst trim_end.simps) simp
  ultimately show ?thesis unfolding Nil trim_def by simp
next
  case (snoc ys y)
  with assms have y: "y \<noteq> []" and h: "xs ! 0 \<noteq> []"
    by (simp, metis length_greater_0_conv nth_mem snoc_eq_iff_butlast)
  have s: "trim_start xs 0 = 0"
    using h by (subst trim_start.simps) simp
  have "xs ! nat (int (length xs) - 1) = y" unfolding snoc by simp
  then have e: "trim_end xs (int (length xs) - 1) = int (length xs) - 1"
    using y by (subst trim_end.simps) simp
  show ?thesis unfolding trim_def s e Let_def by simp
qed

lemma trim_single_empty: "trim [[]] = []"
proof -
  have "trim_start [[]] 1 = 1" by (subst trim_start.simps) simp
  then have s: "trim_start [[]] 0 = 1" by (subst trim_start.simps) simp
  have "trim_end [[]] (- 1) = - 1" by (subst trim_end.simps) simp
  then have e: "trim_end [[]] 0 = - 1" by (subst trim_end.simps) simp
  show ?thesis unfolding trim_def Let_def using s e by simp
qed

lemma sameParts_prefix:
  assumes "i \<le> len" and "len \<le> length xs" and "len \<le> length ys" and "take i xs = take i ys"
  shows "sameParts xs ys len i \<le> len \<and> take (sameParts xs ys len i) xs = take (sameParts xs ys len i) ys"
  using assms
proof (induction xs ys len i rule: sameParts.induct)
  case (1 fromParts toParts len i)
  show ?case
  proof (cases "i < len")
    case False
    with "1.prems" have "i = len" by simp
    with "1.prems" show ?thesis by (subst (1 2 3) sameParts.simps) simp
  next
    case True
    show ?thesis
    proof (cases "fromParts ! i \<noteq> toParts ! i")
      case neq: True
      with True "1.prems" show ?thesis by (subst (1 2 3) sameParts.simps) simp
    next
      case eq: False
      have "take (Suc i) fromParts = take (Suc i) toParts"
        using eq True "1.prems" by (simp add: take_Suc_conv_app_nth)
      then have "sameParts fromParts toParts len (Suc i) \<le> len \<and>
                 take (sameParts fromParts toParts len (Suc i)) fromParts
                 = take (sameParts fromParts toParts len (Suc i)) toParts"
        using "1.IH" [OF True eq] True "1.prems" by simp
      moreover have "sameParts fromParts toParts len i = sameParts fromParts toParts len (Suc i)"
        using True eq by (subst sameParts.simps) simp
      ultimately show ?thesis by simp
    qed
  qed
qed

lemma sameParts_all_equal:
  assumes "\<forall>j<len. xs ! j = ys ! j" and "i \<le> len"
  shows "sameParts xs ys len i = len"
  using assms
proof (induction xs ys len i rule: sameParts.induct)
  case (1 fromParts toParts len i)
  show ?case
  proof (cases "i < len")
    case True
    with "1.prems" have eq: "\<not> fromParts ! i \<noteq> toParts ! i" by simp
    have "sameParts fromParts toParts len (Suc i) = len"
      using "1.IH" [OF True eq] "1.prems" True by simp
    then show ?thesis using True eq by (subst sameParts.simps) simp
  next
    case False
    with "1.prems" show ?thesis by (subst sameParts.simps) simp
  qed
qed

lemma js_split_trailing: "js_split c (a @ [c]) = js_split c a @ [[]]"
  using js_split_append [of c a "[]"] by simp

lemma normalizeArray_trailing:
  "normalizeArray (js_split CHR ''/'' (a @ ''/'')) b = normalizeArray (js_split CHR ''/'' a) b"
  unfolding js_split_trailing normalizeArray_def normalizeArray_loop_append by simp

lemma resolve_single:
  assumes cwd: "isAbsolute (getCwd process)"
  shows "resolve process [JStr x] = Inr (''/'' @ js_join ''/'' (resolved_parts process x))"
proof -
  let ?c = "getCwd process"
  have c: "?c \<noteq> []" "charAt ?c 0 = ''/''"
    using cwd by (auto simp: isAbsolute_def charAt_def split: if_splits)
  consider (abs) "isAbsolute x" | (empty) "x = []" | (rel) "\<not> isAbsolute x" "x \<noteq> []"
    by blast
  then show ?thesis
  proof cases
    case abs
    then have x: "x \<noteq> []" "charAt x 0 = ''/''" by (auto simp: isAbsolute_def charAt_def split: if_splits)
    have "resolve_loop process [JStr x] [] False = Inr (x @ ''/'', True)"
      using x by simp
    then show ?thesis
      using abs normalizeArray_trailing [of x False]
      by (simp add: resolve_def resolved_parts_def)
  next
    case empty
    have "resolve_loop process [JStr x] [] False = Inr (?c @ ''/'', True)"
      using empty c by (simp add: Let_def)
    then show ?thesis
      using empty normalizeArray_trailing [of ?c False]
      by (simp add: resolve_def resolved_parts_def isAbsolute_def charAt_def)
  next
    case rel
    then have x: "(charAt x 0 = ''/'') = False" by (simp add: isAbsolute_def)
    have "resolve_loop process [JStr x] [] False = Inr (?c @ ''/'' @ x @ ''/'', True)"
      using rel(2) c unfolding resolve_loop.simps x by (simp add: Let_def)
    then show ?thesis
      using rel normalizeArray_trailing [of "?c @ ''/'' @ x" False]
      by (simp add: resolve_def resolved_parts_def)
  qed
qed

lemma resolved_parts_real: "x \<in> set (resolved_parts process p) \<Longrightarrow> real_seg x \<and> CHR ''/'' \<notin> set x"
proof -
  assume x: "x \<in> set (resolved_parts process p)"
  have "normal_form False (resolved_parts process p)"
    unfolding resolved_parts_def by (rule normal_form_normalizeArray)
  then have "\<forall>y\<in>set (resolved_parts process p). real_seg y"
    unfolding normal_form_def by auto
  moreover have "CHR ''/'' \<notin> set x"
    using x unfolding resolved_parts_def by (rule normalizeArray_segments) simp
  ultimately show ?thesis using x by blast
qed

lemma trim_split_join:
  assumes "\<forall>x\<in>set xs. x \<noteq> [] \<and> CHR ''/'' \<notin> set x"
  shows "trim (js_split CHR ''/'' (js_join ''/'' xs)) = xs"
proof (cases "xs = []")
  case True
  then show ?thesis by (simp add: trim_single_empty)
next
  case False
  then have "js_split CHR ''/'' (js_join ''/'' xs) = xs"
    using assms js_split_join [of xs "CHR ''/''"] by simp
  then show ?thesis using assms by (simp add: trim_nonempty)
qed

lemma relative_eq:
  assumes cwd: "isAbsolute (getCwd process)"
  shows "relative process from to =
           (let F = resolved_parts process from;
                T = resolved_parts process to;
                k = sameParts F T (min (length F) (length T)) 0
            in Inr (js_join ''/'' (replicate (length F - k) ''..'' @ drop k T)))"
proof -
  have parts: "trim (js_split CHR ''/'' (substring (''/'' @ js_join ''/'' (resolved_parts process p)) 1))
               = resolved_parts process p" for p
  proof -
    have "substring (''/'' @ js_join ''/'' (resolved_parts process p)) 1
          = js_join ''/'' (resolved_parts process p)"
      by (simp add: substring_def)
    moreover have "\<forall>x\<in>set (resolved_parts process p). x \<noteq> [] \<and> CHR ''/'' \<notin> set x"
      using resolved_parts_real [of _ process p] real_seg_nonempty by blast
    ultimately show ?thesis by (simp only: trim_split_join)
  qed
  show ?thesis
    unfolding relative_def resolve_single [OF cwd]
    by (simp only: sum.case Let_def parts)
qed

lemma loop_pops:
  assumes "\<forall>x\<in>set F. real_seg x" and "m \<le> length F"
  shows "normalizeArray_loop a F (replicate m ''..'') = take (length F - m) F"
  using assms
proof (induction m arbitrary: F)
  case 0
  then show ?case by simp
next
  case (Suc m)
  then have ne: "F \<noteq> []" by auto
  then have "real_seg (last F)" using Suc.prems(1) by simp
  then have l: "last F \<noteq> ''..''" by (simp add: real_seg_def)
  have b: "\<forall>x\<in>set (butlast F). real_seg x" using Suc.prems(1) by (meson in_set_butlastD)
  have "normalizeArray_loop a F (replicate (Suc m) ''..'')
        = normalizeArray_loop a (butlast F) (replicate m ''..'')"
    using ne l by simp
  also have "\<dots> = take (length (butlast F) - m) (butlast F)"
    using b Suc.prems(2) by (intro Suc.IH) simp_all
  also have "\<dots> = take (length F - Suc m) F"
    using ne by (simp add: take_butlast)
  finally show ?case .
qed

lemma join_two:
  assumes "from \<noteq> []"
  shows "join [JStr from, JStr rel] = Inr (normalize (if rel = [] then from else from @ ''/'' @ rel))"
  using assms by (simp add: join_def)

lemma normalize_absolute:
  assumes "isAbsolute p"
  shows "normalize p =
           ''/'' @ js_join ''/'' (normalizeArray (js_split CHR ''/'' p) False)
           @ (if normalizeArray (js_split CHR ''/'' p) False \<noteq> [] \<and> last p = CHR ''/'' then ''/'' else [])"
proof -
  let ?N = "normalizeArray (js_split CHR ''/'' p) False"
  have "normal_form False ?N" by (rule normal_form_normalizeArray)
  then have "\<forall>x\<in>set ?N. x \<noteq> []" using normal_form_nonempty by blast
  then have "js_join ''/'' ?N = [] \<longleftrightarrow> ?N = []" by (rule js_join_eq_Nil)
  moreover have "p \<noteq> []" using assms by (simp add: isAbsolute_iff)
  ultimately show ?thesis
    using assms by (simp add: normalize_def Let_def trailing_slash_iff)
qed

lemma js_join_inject:
  assumes "\<forall>x\<in>set xs. x \<noteq> [] \<and> CHR ''/'' \<notin> set x" and "\<forall>x\<in>set ys. x \<noteq> [] \<and> CHR ''/'' \<notin> set x"
    and "js_join ''/'' xs = js_join ''/'' ys"
  shows "xs = ys"
proof -
  have "xs = trim (js_split CHR ''/'' (js_join ''/'' xs))"
    using assms(1) by (rule trim_split_join [symmetric])
  also have "\<dots> = trim (js_split CHR ''/'' (js_join ''/'' ys))"
    by (simp only: assms(3))
  also have "\<dots> = ys" using assms(2) by (rule trim_split_join)
  finally show ?thesis .
qed

lemma relative_roundtrip_absolute:
  assumes cwd: "isAbsolute (getCwd process)"
    and ab: "isAbsolute from"
    and H: "\<not> (from \<noteq> [] \<and> last from = CHR ''/'')
            \<or> resolve process [JStr from] \<noteq> resolve process [JStr to]
            \<or> resolve process [JStr from] = Inr ''/''"
  shows "relative_roundtrip process from to = resolve_normalized process to"
proof -
  define F where "F = resolved_parts process from"
  define T where "T = resolved_parts process to"
  define k where "k = sameParts F T (min (length F) (length T)) 0"
  define out where "out = replicate (length F - k) ''..'' @ drop k T"
  define rel where "rel = js_join ''/'' out"
  define path where "path = (if rel = [] then from else from @ ''/'' @ rel)"
  have Fdef: "F = normalizeArray (js_split CHR ''/'' from) False"
    unfolding F_def resolved_parts_def using ab by simp
  have Freal: "\<forall>x\<in>set F. real_seg x" and Fseg: "\<forall>x\<in>set F. CHR ''/'' \<notin> set x"
    unfolding F_def using resolved_parts_real by blast+
  have Treal: "\<forall>x\<in>set T. real_seg x" and Tseg: "\<forall>x\<in>set T. CHR ''/'' \<notin> set x"
    unfolding T_def using resolved_parts_real by blast+
  have k: "k \<le> min (length F) (length T)" "take k F = take k T"
    unfolding k_def using sameParts_prefix [of 0 "min (length F) (length T)" F T] by simp_all
  have rfrom: "resolve process [JStr from] = Inr (''/'' @ js_join ''/'' F)"
    unfolding F_def by (rule resolve_single [OF cwd])
  have rto: "resolve process [JStr to] = Inr (''/'' @ js_join ''/'' T)"
    unfolding T_def by (rule resolve_single [OF cwd])
  have relative: "relative process from to = Inr rel"
    unfolding relative_eq [OF cwd] rel_def out_def k_def F_def T_def Let_def ..
  have fne: "from \<noteq> []" using ab by (simp add: isAbsolute_iff)
  have joined: "join [JStr from, JStr rel] = Inr (normalize path)"
    unfolding path_def using fne by (rule join_two)
  have outseg: "\<forall>x\<in>set out. x \<noteq> [] \<and> CHR ''/'' \<notin> set x"
  proof
    fix x assume "x \<in> set out"
    then have "x = ''..'' \<or> x \<in> set T" unfolding out_def by (auto dest: in_set_dropD)
    then show "x \<noteq> [] \<and> CHR ''/'' \<notin> set x"
      using Treal Tseg real_seg_nonempty by auto
  qed
  have main: "normalize path = ''/'' @ js_join ''/'' T"
  proof (cases "out = []")
    case False
    have rel: "rel \<noteq> []" unfolding rel_def using outseg False by (simp add: js_join_eq_Nil)
    then have path: "path = from @ CHR ''/'' # rel" unfolding path_def by simp
    have "js_split CHR ''/'' rel = out"
      unfolding rel_def using js_split_join [OF False, of "CHR ''/''"] outseg by simp
    then have split: "js_split CHR ''/'' path = js_split CHR ''/'' from @ out"
      unfolding path by (simp only: js_split_append)
    have "normalizeArray (js_split CHR ''/'' path) False = normalizeArray_loop False F out"
      unfolding split Fdef normalizeArray_def normalizeArray_loop_append ..
    also have "\<dots> = normalizeArray_loop False (normalizeArray_loop False F (replicate (length F - k) ''..'')) (drop k T)"
      unfolding out_def normalizeArray_loop_append ..
    also have "normalizeArray_loop False F (replicate (length F - k) ''..'') = take k F"
      using loop_pops [OF Freal, of "length F - k" False] k(1) by simp
    also have "normalizeArray_loop False (take k F) (drop k T) = take k F @ drop k T"
      using Treal by (intro loop_real) (auto dest: in_set_dropD)
    also have "\<dots> = T" unfolding k(2) by simp
    finally have N: "normalizeArray (js_split CHR ''/'' path) False = T" .
    have pabs: "isAbsolute path" using ab unfolding path by (simp add: isAbsolute_iff)
    have "last out \<noteq> []" "CHR ''/'' \<notin> set (last out)" using outseg False by simp_all
    then have "last rel \<noteq> CHR ''/''"
      unfolding rel_def using last_js_join [OF False, of "''/''"] by (metis last_in_set)
    then have "last path \<noteq> CHR ''/''" unfolding path using rel by simp
    then show ?thesis
      unfolding normalize_absolute [OF pabs] N by simp
  next
    case True
    then have rel: "rel = []" unfolding rel_def by simp
    then have path: "path = from" unfolding path_def by simp
    from True have "length F - k = 0" "drop k T = []" unfolding out_def by simp_all
    with k(1) have "k = length F" "k = length T" by simp_all
    with k(2) have FT: "F = T" by simp
    have "\<not> (from \<noteq> [] \<and> last from = CHR ''/'') \<or> F = []"
    proof -
      from H rfrom rto FT have "\<not> (from \<noteq> [] \<and> last from = CHR ''/'') \<or> js_join ''/'' F = []"
        by auto
      moreover have "\<forall>x\<in>set F. x \<noteq> []" using Freal real_seg_nonempty by blast
      then have "js_join ''/'' F = [] \<longleftrightarrow> F = []" by (rule js_join_eq_Nil)
      ultimately show ?thesis by blast
    qed
    then show ?thesis
      unfolding path normalize_absolute [OF ab] Fdef [symmetric] using fne FT by auto
  qed
  show ?thesis
    unfolding relative_roundtrip_def resolve_normalized_def relative rto
    by (simp add: joined main)
qed

lemma relative_same:
  assumes cwd: "isAbsolute (getCwd process)"
    and same: "resolve process [JStr from] = resolve process [JStr to]"
  shows "relative process from to = Inr []"
proof -
  define F where "F = resolved_parts process from"
  define T where "T = resolved_parts process to"
  have Fseg: "\<forall>x\<in>set F. x \<noteq> [] \<and> CHR ''/'' \<notin> set x"
    unfolding F_def using resolved_parts_real real_seg_nonempty by blast
  have Tseg: "\<forall>x\<in>set T. x \<noteq> [] \<and> CHR ''/'' \<notin> set x"
    unfolding T_def using resolved_parts_real real_seg_nonempty by blast
  have "js_join ''/'' F = js_join ''/'' T"
    using same unfolding resolve_single [OF cwd] F_def T_def by simp
  with Fseg Tseg have FT: "F = T" by (rule js_join_inject)
  have "sameParts T T (min (length T) (length T)) 0 = min (length T) (length T)"
    by (rule sameParts_all_equal) simp_all
  then show ?thesis
    unfolding relative_eq [OF cwd] Let_def F_def [symmetric] T_def [symmetric] FT by simp
qed

section \<open>The claims\<close>

text \<open>
  C2. The segment normalizer is one pass from left to right over the segments: empty
  segments and \<open>"."\<close> are dropped; \<open>".."\<close> removes the last element of the result so far
  when there is one and it is not \<open>".."\<close>, and is otherwise appended exactly when
  \<open>allowAboveRoot\<close> holds and dropped when it does not; every other segment is appended
  as it is.
\<close>

theorem normalizeArray_single_pass:
  "normalizeArray parts allowAboveRoot = spec_normalizer allowAboveRoot parts"
proof -
  have "normalizeArray_loop allowAboveRoot res parts
        = foldl (spec_segment_step allowAboveRoot) res parts" for res
    by (induction parts arbitrary: res) (auto simp add: spec_segment_step_def)
  then show ?thesis
    by (simp add: normalizeArray_def spec_normalizer_def)
qed

text \<open>
  C1, as stated: \<^verbatim>\<open>normalize\<close> returns \<open>"."\<close> whenever the rejoined result is empty and
  the path is not absolute. It does not on \<open>"./"\<close>, where the code goes on to append the
  trailing slash to the \<open>"."\<close>.
\<close>

theorem normalize_dot_slash_counterexample:
  "normalize ''./'' = ''./'' \<and> spec_normalize ''./'' = ''.'' \<and> normalize ''./'' \<noteq> spec_normalize ''./''"
  by (simp add: normalize_def spec_normalize_def isAbsolute_def charAt_def substr_def
      normalizeArray_def)

text \<open>
  C1, amended: for every string \<open>p\<close>, \<^verbatim>\<open>normalize(p)\<close> splits \<open>p\<close> on \<open>"/"\<close>, runs the
  segment normalizer with \<open>allowAboveRoot = !isAbsolute(p)\<close> and rejoins with \<open>"/"\<close>; an
  empty result of a path that is not absolute becomes \<open>"."\<close>; a trailing \<open>"/"\<close> is then
  appended when \<open>p\<close> ended with \<open>"/"\<close> and the result, the \<open>"."\<close> included, is not empty;
  \<open>"/"\<close> is put in front when \<open>p\<close> was absolute. In particular
  \<^verbatim>\<open>normalize("a/../../b") = "../b"\<close> and \<^verbatim>\<open>normalize("/a/b/../../c") = "/c"\<close>.
\<close>

theorem normalize_contract:
  "normalize p = spec_normalize_amended p
   \<and> normalize ''a/../../b'' = ''../b''
   \<and> normalize ''/a/b/../../c'' = ''/c''"
proof -
  have "normalize p = spec_normalize_amended p"
    by (auto simp add: normalize_def spec_normalize_amended_def isAbsolute_iff trailing_slash_iff
        Let_def)
  moreover have "normalize ''a/../../b'' = ''../b''"
    by (simp add: normalize_def isAbsolute_def charAt_def substr_def normalizeArray_def)
  moreover have "normalize ''/a/b/../../c'' = ''/c''"
    by (simp add: normalize_def isAbsolute_def charAt_def substr_def normalizeArray_def)
  ultimately show ?thesis by simp
qed

text \<open>
  C6. \<^verbatim>\<open>normalize\<close> is idempotent: \<^verbatim>\<open>normalize(normalize(p)) == normalize(p)\<close> for every
  string \<open>p\<close>.
\<close>

theorem normalize_idempotent: "normalize (normalize p) = normalize p"
proof -
  define ab where "ab = isAbsolute p"
  define N where "N = normalizeArray (js_split CHR ''/'' p) (\<not> ab)"
  define tr where "tr \<longleftrightarrow> substr p (-1) None = ''/''"
  have nf: "normal_form (\<not> ab) N" unfolding N_def by (rule normal_form_normalizeArray)
  have seg: "\<forall>x\<in>set N. CHR ''/'' \<notin> set x"
    unfolding N_def using normalizeArray_segments by fastforce
  have nonempty: "\<forall>x\<in>set N. x \<noteq> []" using nf normal_form_nonempty by blast
  show ?thesis
  proof (cases "N = []")
    case True
    then have "normalize p = ''/'' \<or> normalize p = ''.'' \<or> normalize p = ''./''"
      unfolding normalize_def Let_def ab_def [symmetric] N_def [symmetric] by auto
    moreover have "normalize ''/'' = ''/''" "normalize ''.'' = ''.''" "normalize ''./'' = ''./''"
      by (simp_all add: normalize_def isAbsolute_def charAt_def substr_def normalizeArray_def)
    ultimately show ?thesis by auto
  next
    case False
    then have J: "js_join ''/'' N \<noteq> []" using nonempty by (simp add: js_join_eq_Nil)
    have "normalize p = (if ab then ''/'' else []) @ js_join ''/'' N @ (if tr then ''/'' else [])"
      unfolding normalize_def Let_def ab_def [symmetric] N_def [symmetric] tr_def [symmetric]
      using J by auto
    then show ?thesis
      using normalize_normal [OF nf seg False, of "if tr then ''/'' else []"] by simp
  qed
qed

text \<open>
  C5. For every list of string arguments, and a working directory that starts with
  \<open>"/"\<close>, \<^verbatim>\<open>resolve\<close> returns a string whose first character is \<open>"/"\<close>.
\<close>

theorem resolve_absolute:
  assumes "isAbsolute (getCwd process)"
  shows "\<exists>r. resolve process (map JStr args) = Inr r \<and> isAbsolute r \<and> charAt r 0 = ''/''"
proof -
  from assms obtain rp where "resolve_loop process (rev (map JStr args)) [] False = Inr (rp, True)"
    using resolve_loop_strings [of False process "rev args" "[]"] by (auto simp: rev_map)
  then show ?thesis
    by (simp add: resolve_def isAbsolute_def charAt_def)
qed

theorem resolve_absolute_witness:
  "isAbsolute (getCwd (Some ''/home'')) \<and>
   resolve (Some ''/home'') (map JStr [''a'', ''../b'']) = Inr ''/home/b'' \<and>
   (\<exists>r. resolve (Some ''/home'') (map JStr [''a'', ''../b'']) = Inr r \<and> isAbsolute r \<and> charAt r 0 = ''/'')"
proof -
  have h: "isAbsolute (getCwd (Some ''/home''))"
    by (simp add: isAbsolute_def getCwd_def charAt_def)
  have "resolve (Some ''/home'') (map JStr [''a'', ''../b'']) = Inr ''/home/b''"
    by (simp add: resolve_def getCwd_def charAt_def normalizeArray_def)
  then show ?thesis using h resolve_absolute [OF h, of "[''a'', ''../b'']"] by simp
qed

text \<open>
  C8, as stated: \<^verbatim>\<open>resolve\<close> raises a TypeError when any argument is not a string. It
  does not when an absolute path stands to the right of that argument: the scan runs from
  the last argument to the first and stops at the first absolute path.
\<close>

theorem resolve_skips_check_counterexample:
  "\<not> isString (JNum 1) \<and> resolve None [JNum 1, JStr ''/a''] = Inr ''/a''"
  by (simp add: isString_def resolve_def charAt_def normalizeArray_def)

text \<open>
  C8, amended: \<^verbatim>\<open>join\<close> raises a TypeError when any argument is not a string;
  \<^verbatim>\<open>resolve\<close> raises a TypeError when some argument is not a string and no argument to
  its right is an absolute path; \<^verbatim>\<open>parse\<close> raises a TypeError when its input is not a
  string; \<^verbatim>\<open>format\<close> raises a TypeError when its input is not an object, or when its
  \<open>root\<close> property is neither \<open>undefined\<close> (absent), nor \<open>null\<close>, nor a string. The
  error is the result of the offending call.
\<close>

theorem type_errors:
  "((\<exists>v\<in>set args. \<not> isString v) \<longrightarrow>
      join args = Inl (TypeError ''Arguments to path.join must be strings''))
   \<and> (\<not> isString v \<and> (\<forall>x\<in>set post. \<forall>s. x = JStr s \<longrightarrow> \<not> isAbsolute s) \<longrightarrow>
      resolve process (pre @ v # post) = Inl (TypeError ''Arguments to path.resolve must be strings''))
   \<and> (\<not> isString v \<longrightarrow>
      parse v = Inl (TypeError (''Parameter 'pathString' must be a string, not '' @ typeof v)))
   \<and> (\<not> isObject v \<longrightarrow>
      format v = Inl (TypeError (''Parameter 'pathObject' must be an object, not '' @ typeof v)))
   \<and> (get_prop (JObj fs) ''root'' \<noteq> JUndefined \<and> get_prop (JObj fs) ''root'' \<noteq> JNull
        \<and> \<not> isString (get_prop (JObj fs) ''root'') \<longrightarrow>
      format (JObj fs) = Inl (TypeError ([CHR 0x27] @ ''pathObject.root' must be a string or undefined, not ''
                                         @ typeof (get_prop (JObj fs) ''root''))))"
proof -
  have 1: "(\<exists>v\<in>set args. \<not> isString v) \<longrightarrow>
      join args = Inl (TypeError ''Arguments to path.join must be strings'')"
    by (simp add: join_def join_loop_non_string)
  have 2: "\<not> isString v \<and> (\<forall>x\<in>set post. \<forall>s. x = JStr s \<longrightarrow> \<not> isAbsolute s) \<longrightarrow>
      resolve process (pre @ v # post) = Inl (TypeError ''Arguments to path.resolve must be strings'')"
  proof
    assume a: "\<not> isString v \<and> (\<forall>x\<in>set post. \<forall>s. x = JStr s \<longrightarrow> \<not> isAbsolute s)"
    then have "resolve_loop process (rev post @ v # rev pre) [] False
         = Inl (TypeError ''Arguments to path.resolve must be strings'')"
      by (intro resolve_loop_non_string) auto
    then show "resolve process (pre @ v # post) = Inl (TypeError ''Arguments to path.resolve must be strings'')"
      by (simp add: resolve_def)
  qed
  have 3: "\<not> isString v \<longrightarrow>
      parse v = Inl (TypeError (''Parameter 'pathString' must be a string, not '' @ typeof v))"
    by (cases v) (simp_all add: parse_def isString_def)
  have 4: "\<not> isObject v \<longrightarrow>
      format v = Inl (TypeError (''Parameter 'pathObject' must be an object, not '' @ typeof v))"
    by (simp add: format_def)
  have 5: "get_prop (JObj fs) ''root'' \<noteq> JUndefined \<and> get_prop (JObj fs) ''root'' \<noteq> JNull
        \<and> \<not> isString (get_prop (JObj fs) ''root'') \<longrightarrow>
      format (JObj fs) = Inl (TypeError ([CHR 0x27] @ ''pathObject.root' must be a string or undefined, not ''
                                         @ typeof (get_prop (JObj fs) ''root'')))"
  proof
    assume a: "get_prop (JObj fs) ''root'' \<noteq> JUndefined \<and> get_prop (JObj fs) ''root'' \<noteq> JNull
        \<and> \<not> isString (get_prop (JObj fs) ''root'')"
    then have "nullish (get_prop (JObj fs) ''root'') (JStr []) = get_prop (JObj fs) ''root''"
      by (cases "get_prop (JObj fs) ''root''") simp_all
    with a show "format (JObj fs) = Inl (TypeError ([CHR 0x27] @ ''pathObject.root' must be a string or undefined, not ''
                                         @ typeof (get_prop (JObj fs) ''root'')))"
      by (simp add: format_def isObject_def)
  qed
  from 1 2 3 4 5 show ?thesis by blast
qed

theorem type_errors_witness:
  "(\<exists>v\<in>set [JNum 1, JStr ''a'']. \<not> isString v)
   \<and> join [JNum 1, JStr ''a''] = Inl (TypeError ''Arguments to path.join must be strings'')
   \<and> \<not> isString (JNum 42) \<and> \<not> isAbsolute ''b''
   \<and> resolve None ([JStr ''/a''] @ JNum 42 # [JStr ''b''])
       = Inl (TypeError ''Arguments to path.resolve must be strings'')
   \<and> parse (JNum 42) = Inl (TypeError ''Parameter 'pathString' must be a string, not number'')
   \<and> \<not> isObject (JNum 42)
   \<and> format (JNum 42) = Inl (TypeError ''Parameter 'pathObject' must be an object, not number'')
   \<and> get_prop (JObj [(''root'', JNum 7)]) ''root'' \<noteq> JUndefined
   \<and> get_prop (JObj [(''root'', JNum 7)]) ''root'' \<noteq> JNull
   \<and> \<not> isString (get_prop (JObj [(''root'', JNum 7)]) ''root'')
   \<and> format (JObj [(''root'', JNum 7)])
       = Inl (TypeError ([CHR 0x27] @ ''pathObject.root' must be a string or undefined, not number''))"
proof -
  have h1: "\<exists>v\<in>set [JNum 1, JStr ''a'']. \<not> isString v" by (simp add: isString_def)
  have h2: "\<not> isString (JNum 42)" by (simp add: isString_def)
  have h3: "\<forall>x\<in>set [JStr ''b'']. \<forall>s. x = JStr s \<longrightarrow> \<not> isAbsolute s"
    by (simp add: isAbsolute_def charAt_def)
  have h4: "\<not> isObject (JNum 42)" by (simp add: isObject_def)
  have h5: "get_prop (JObj [(''root'', JNum 7)]) ''root'' = JNum 7" by simp
  have h6: "\<not> isString (JNum 7)" by (simp add: isString_def)
  note t = type_errors [of "[JNum 1, JStr ''a'']" "JNum 42" "[JStr ''b'']" None "[JStr ''/a'']" "[(''root'', JNum 7)]"]
  show ?thesis
    using h1 h2 h3 h4 h5 h6 t by (simp add: isAbsolute_def charAt_def)
qed

text \<open>
  C9. For every object whose properties are strings, \<^verbatim>\<open>format\<close> returns
  \<open>dir + "/" + base\<close> when \<open>dir\<close> is not empty and \<open>base\<close> alone otherwise; the \<open>root\<close>
  property is not part of the output, so \<^verbatim>\<open>format({root: "/", base: "x"})\<close> is \<open>"x"\<close>.
\<close>

theorem format_dir_base:
  assumes "\<forall>v\<in>snd ` set fs. isString v"
  shows "format (JObj fs) =
           Inr (if string_field fs ''dir'' \<noteq> [] then string_field fs ''dir'' @ ''/'' @ string_field fs ''base''
                else string_field fs ''base'')"
proof -
  have "isObject (JObj fs)" by (simp add: isObject_def)
  moreover have "isString (nullish (get_prop (JObj fs) ''root'') (JStr []))"
    using get_prop_string [OF assms, of "''root''"] by (auto simp: isString_def)
  moreover have "to_string (nullish (get_prop (JObj fs) ''base'') (JStr [])) = string_field fs ''base''"
    using get_prop_string [OF assms, of "''base''"] by auto
  moreover have "truthy (get_prop (JObj fs) ''dir'') \<longleftrightarrow> string_field fs ''dir'' \<noteq> []"
    using get_prop_string [OF assms, of "''dir''"] by auto
  moreover have "string_field fs ''dir'' \<noteq> [] \<Longrightarrow> to_string (get_prop (JObj fs) ''dir'') = string_field fs ''dir''"
    using get_prop_string [OF assms, of "''dir''"] by auto
  ultimately show ?thesis
    unfolding format_def Let_def sep_def by simp
qed

theorem format_dir_base_witness:
  "isString (JStr ''/'') \<and> isString (JStr ''x'')
   \<and> format (JObj [(''root'', JStr ''/''), (''base'', JStr ''x'')]) = Inr ''x''"
proof -
  have h: "\<forall>v\<in>snd ` set [(''root'', JStr ''/''), (''base'', JStr ''x'')]. isString v"
    by (simp add: isString_def)
  show ?thesis using h format_dir_base [OF h] by (simp add: string_field_def isString_def)
qed

text \<open>
  C10. For every path \<open>p\<close> and every non-empty string \<open>x\<close>: when the final component of
  \<open>p\<close> (its base) is exactly \<open>x\<close>, \<^verbatim>\<open>basename(p, x)\<close> is the empty string.
\<close>

theorem basename_whole_base:
  assumes "final_component p = x" and "x \<noteq> []"
  shows "basename p (Some x) = Inr []"
proof -
  have "posixSplitPath p
        = Inr [root_part p, dir_part (drop (length (root_part p)) p), x, spec_ext x]"
    using assms(1) by (simp add: posixSplitPath_eq final_component_root)
  then show ?thesis
    using assms(2) by (simp add: basename_def substr_def)
qed

theorem basename_whole_base_witness:
  "final_component ''/a/b.txt'' = ''b.txt'' \<and> ''b.txt'' \<noteq> []
   \<and> basename ''/a/b.txt'' (Some ''b.txt'') = Inr []"
proof -
  have h: "final_component ''/a/b.txt'' = ''b.txt''" by (simp add: final_component_def)
  have h2: "''b.txt'' \<noteq> []" by simp
  show ?thesis using h basename_whole_base [OF h h2] by simp
qed

text \<open>
  C7, as stated: \<^verbatim>\<open>extname\<close> returns the empty string when the final component has one
  or two leading dots and no further dot. It does not on \<open>"..foo"\<close>: after two leading
  dots the second one starts the extension.
\<close>

theorem extname_two_dots_counterexample:
  "spec_leading_dots ''..foo'' \<and> final_component ''..foo'' = ''..foo'' \<and> extname ''..foo'' = Inr ''.foo''"
proof -
  have "spec_leading_dots ''..foo''" by (simp add: spec_leading_dots_def)
  moreover have f: "final_component ''..foo'' = ''..foo''" by (simp add: final_component_def)
  moreover have "extname ''..foo'' = Inr ''.foo''"
    unfolding extname_eq f by (simp add: spec_ext_def)
  ultimately show ?thesis by simp
qed

text \<open>
  C7, amended: \<^verbatim>\<open>extname\<close> returns the part of the final path component that starts at
  its last dot, and returns the empty string when the final component is \<open>".."\<close> or has
  no dot after its first character (no dot at all, or one leading dot only):
  \<^verbatim>\<open>extname("file") = ""\<close>, \<^verbatim>\<open>extname(".gitignore") = ""\<close> and
  \<^verbatim>\<open>extname("a.b.c") = ".c"\<close>.
\<close>

theorem extname_contract:
  "extname p = Inr (spec_ext (final_component p))
   \<and> extname ''file'' = Inr []
   \<and> extname ''.gitignore'' = Inr []
   \<and> extname ''a.b.c'' = Inr ''.c''"
proof -
  have "extname p = Inr (spec_ext (final_component p))"
    by (simp add: extname_def posixSplitPath_eq final_component_root)
  then have eq: "extname q = Inr (spec_ext (final_component q))" for q
    by (simp add: extname_def posixSplitPath_eq final_component_root)
  have "extname ''file'' = Inr []"
    unfolding eq by (simp add: final_component_def spec_ext_def)
  moreover have "extname ''.gitignore'' = Inr []"
    unfolding eq by (simp add: final_component_def spec_ext_def)
  moreover have "extname ''a.b.c'' = Inr ''.c''"
    unfolding eq by (simp add: final_component_def spec_ext_def)
  ultimately show ?thesis using eq by simp
qed

text \<open>
  C4, as stated: \<^verbatim>\<open>format(parse(p)) == normalize(p)\<close> for every normalized \<open>p\<close> without
  a trailing slash. It fails on \<open>"/a"\<close>: \<^verbatim>\<open>parse\<close> gives \<open>dir = "/"\<close>, and \<^verbatim>\<open>format\<close>
  puts a separator after every non-empty \<open>dir\<close>.
\<close>

theorem format_parse_root_counterexample:
  "normalize ''/a'' = ''/a'' \<and> substr ''/a'' (-1) None \<noteq> ''/'' \<and> format_parse ''/a'' = Inr ''//a''"
proof -
  have "normalize ''/a'' = ''/a''"
    by (simp add: normalize_def isAbsolute_def charAt_def substr_def normalizeArray_def)
  moreover have "substr ''/a'' (-1) None \<noteq> ''/''" by (simp add: substr_def)
  moreover have "format_parse ''/a'' = Inr ''//a''"
    unfolding format_parse_eq by (simp add: root_part_def dir_part_def final_component_def)
  ultimately show ?thesis by simp
qed

text \<open>
  C4, amended: for every path \<open>p\<close> that is already normalized, has no trailing slash and
  is not a slash followed by a single component, \<^verbatim>\<open>format(parse(p)) == normalize(p)\<close>
  (in particular for \<open>p = "/a/b/c.txt"\<close>).
\<close>

theorem format_parse_roundtrip:
  assumes norm: "normalize p = p"
    and trail: "\<not> (p \<noteq> [] \<and> last p = CHR ''/'')"
    and single: "\<not> (isAbsolute p \<and> CHR ''/'' \<notin> set (drop 1 p))"
  shows "format_parse p = Inr (normalize p)"
proof -
  define R where "R = root_part p"
  define r where "r = drop (length R) p"
  define D where "D = dir_part r"
  define B where "B = final_component r"
  define T where "T = trailing_slashes r"
  have p: "p = R @ r"
    unfolding r_def R_def by (cases p) (auto simp: root_part_def)
  have r: "r = D @ B @ T" unfolding D_def B_def T_def by (rule path_decomp)
  have B: "CHR ''/'' \<notin> set B" unfolding B_def by (rule final_component_noslash)
  have T: "T = []"
  proof (rule ccontr)
    assume t: "T \<noteq> []"
    have "slashes T" unfolding T_def by (rule slashes_trailing)
    with t have "last T = CHR ''/''"
      unfolding slashes_def using last_in_set [OF t] by blast
    moreover have "p = (R @ D @ B) @ T" using p r by simp
    then have "last p = last T" "p \<noteq> []" using t by simp_all
    ultimately show False using trail by simp
  qed
  have out: "(if R @ butlast D \<noteq> [] then (R @ butlast D) @ ''/'' else []) @ B = p"
  proof (cases "D = []")
    case True
    with r T have rB: "r = B" by simp
    have "R = []"
    proof (rule ccontr)
      assume "R \<noteq> []"
      then have a: "isAbsolute p" "R = ''/''"
        unfolding R_def by (auto simp: root_part_iff split: if_splits)
      then have "drop 1 p = B" using rB p by simp
      with single a B show False by simp
    qed
    with True rB p show ?thesis by simp
  next
    case False
    then have "last D = CHR ''/''" unfolding D_def using dir_part_last by blast
    with False have DD: "butlast D @ ''/'' = D" using append_butlast_last_id [of D] by simp
    have "(R @ butlast D) @ ''/'' @ B = R @ (butlast D @ ''/'') @ B" by simp
    also have "\<dots> = p" unfolding DD using p r T by simp
    finally have 1: "(R @ butlast D) @ ''/'' @ B = p" .
    have 2: "R @ butlast D \<noteq> []"
    proof
      assume e: "R @ butlast D = []"
      then have R: "R = []" and "butlast D = []" by simp_all
      with DD have "D = ''/''" by simp
      with r T R p have "p = CHR ''/'' # B" by simp
      then have "root_part p = ''/''" by (simp add: root_part_def)
      with R show False unfolding R_def by simp
    qed
    from 1 2 show ?thesis by simp
  qed
  have "format_parse p = Inr ((if R @ butlast D \<noteq> [] then (R @ butlast D) @ ''/'' else []) @ B)"
    unfolding format_parse_eq Let_def R_def r_def D_def B_def ..
  then show ?thesis
    unfolding out norm .
qed

theorem format_parse_roundtrip_witness:
  "normalize ''/a/b/c.txt'' = ''/a/b/c.txt''
   \<and> last ''/a/b/c.txt'' \<noteq> CHR ''/''
   \<and> CHR ''/'' \<in> set (drop 1 ''/a/b/c.txt'')
   \<and> format_parse ''/a/b/c.txt'' = Inr ''/a/b/c.txt''"
proof -
  have h1: "normalize ''/a/b/c.txt'' = ''/a/b/c.txt''"
    by (simp add: normalize_def isAbsolute_def charAt_def substr_def normalizeArray_def)
  have h2: "\<not> (''/a/b/c.txt'' \<noteq> [] \<and> last ''/a/b/c.txt'' = CHR ''/'')" by simp
  have h3: "\<not> (isAbsolute ''/a/b/c.txt'' \<and> CHR ''/'' \<notin> set (drop 1 ''/a/b/c.txt''))" by simp
  show ?thesis
    using format_parse_roundtrip [OF h1 h2 h3] h1 by simp
qed

text \<open>
  C3, as stated: \<^verbatim>\<open>normalize(join(from, relative(from, to))) == normalize(resolve(to))\<close>
  for any two paths. It fails for a \<open>from\<close> that is not absolute: \<^verbatim>\<open>relative\<close> is
  computed from the resolved \<open>from\<close>, but \<^verbatim>\<open>join\<close> starts at \<open>from\<close> as it is given,
  and the result is a relative path.
\<close>

theorem relative_roundtrip_counterexample:
  "isAbsolute (getCwd None)
   \<and> relative None ''a'' ''/y'' = Inr ''../y''
   \<and> relative_roundtrip None ''a'' ''/y'' = Inr ''y''
   \<and> resolve_normalized None ''/y'' = Inr ''/y''"
  by code_simp

text \<open>
  C3, amended: with an absolute working directory, for every absolute \<open>from\<close> and every
  \<open>to\<close>, \<^verbatim>\<open>normalize(join(from, relative(from, to))) == normalize(resolve(to))\<close>,
  provided \<open>from\<close> has no trailing slash, or the two paths resolve differently, or
  \<open>from\<close> resolves to the root; and when the two inputs resolve to identical absolute
  paths, \<^verbatim>\<open>relative(from, to)\<close> is the empty string.
\<close>

theorem relative_roundtrip_holds:
  assumes "isAbsolute (getCwd process)"
  shows "(isAbsolute from
            \<and> (last from \<noteq> CHR ''/''
                \<or> resolve process [JStr from] \<noteq> resolve process [JStr to]
                \<or> resolve process [JStr from] = Inr ''/'')
          \<longrightarrow> relative_roundtrip process from to = resolve_normalized process to)
         \<and> (resolve process [JStr from] = resolve process [JStr to]
          \<longrightarrow> relative process from to = Inr [])"
proof (intro conjI impI)
  assume h: "isAbsolute from
            \<and> (last from \<noteq> CHR ''/''
                \<or> resolve process [JStr from] \<noteq> resolve process [JStr to]
                \<or> resolve process [JStr from] = Inr ''/'')"
  then have "\<not> (from \<noteq> [] \<and> last from = CHR ''/'')
            \<or> resolve process [JStr from] \<noteq> resolve process [JStr to]
            \<or> resolve process [JStr from] = Inr ''/''"
    by blast
  with assms h show "relative_roundtrip process from to = resolve_normalized process to"
    by (intro relative_roundtrip_absolute) simp_all
next
  assume "resolve process [JStr from] = resolve process [JStr to]"
  with assms show "relative process from to = Inr []" by (rule relative_same)
qed

theorem relative_roundtrip_holds_witness:
  "isAbsolute (getCwd (Some ''/home''))
   \<and> isAbsolute ''/a/b/c'' \<and> last ''/a/b/c'' \<noteq> CHR ''/''
   \<and> relative_roundtrip (Some ''/home'') ''/a/b/c'' ''/a/b/d/e'' = Inr ''/a/b/d/e''
   \<and> resolve (Some ''/home'') [JStr ''x/''] = resolve (Some ''/home'') [JStr ''./x'']
   \<and> relative (Some ''/home'') ''x/'' ''./x'' = Inr []"
proof -
  have cwd: "isAbsolute (getCwd (Some ''/home''))" by code_simp
  have h1: "isAbsolute ''/a/b/c''" "last ''/a/b/c'' \<noteq> CHR ''/''" by (code_simp, simp)
  have r: "resolve_normalized (Some ''/home'') ''/a/b/d/e'' = Inr ''/a/b/d/e''" by code_simp
  have h2: "resolve (Some ''/home'') [JStr ''x/''] = resolve (Some ''/home'') [JStr ''./x'']"
    by code_simp
  show ?thesis
    using relative_roundtrip_holds [OF cwd, of "''/a/b/c''" "''/a/b/d/e''"]
      relative_roundtrip_holds [OF cwd, of "''x/''" "''./x''"] cwd h1 h2 r
    by simp
qed

end
